theory Spec2Isabelle
  imports Main "HOL-Library.Sublist" "HOL-Library.AList"
begin

section \<open>Log entries and status events\<close>

text \<open>
  The daemon reads JSONL log entries and classifies each into at most one status event
  (\<^verbatim>\<open>status-machine.ts\<close>). Timestamps are ISO strings in the source and stay strings
  here; a content block is a tagged union on its \<^verbatim>\<open>type\<close> field.
\<close>

type_synonym timestamp = string

datatype content_block =
    TextBlock string
  | ToolUseBlock (block_id: string) (block_name: string)
  | ToolResultBlock (tool_use_id: string)
  | OtherBlock string

datatype user_content =
    StringContent string
  | BlockContent "content_block list"

datatype log_entry =
    UserEntry timestamp user_content
  | AssistantEntry timestamp "content_block list"
  | SystemEntry timestamp string
  | OtherEntry string

datatype status_event =
    USER_PROMPT timestamp
  | TOOL_RESULT timestamp "string list"
  | ASSISTANT_STREAMING timestamp
  | ASSISTANT_TOOL_USE timestamp "string list"
  | TURN_END timestamp
  | IDLE_TIMEOUT
  | APPROVAL_TIMEOUT
  | STALE_TIMEOUT

datatype status_state = Idle | Working | Waiting_for_approval | Waiting_for_input

record status_context =
  lastActivityAt :: timestamp
  messageCount :: nat
  hasPendingToolUse :: bool
  pendingToolIds :: "string list"

type_synonym machine = "status_state \<times> status_context"

section \<open>The status machine\<close>

definition initialContext :: status_context where
  "initialContext =
     \<lparr>lastActivityAt = [], messageCount = 0, hasPendingToolUse = False, pendingToolIds = []\<rparr>"

definition initialMachine :: machine where
  "initialMachine = (Waiting_for_input, initialContext)"

text \<open>\<^verbatim>\<open>pendingToolIds.filter((id) => !event.toolUseIds.includes(id))\<close>\<close>

definition remainingIds :: "string list \<Rightarrow> string list \<Rightarrow> string list" where
  "remainingIds pending toolUseIds = filter (\<lambda>i. i \<notin> set toolUseIds) pending"

text \<open>
  One \<^verbatim>\<open>actor.send(event)\<close>: the transition table of \<^verbatim>\<open>statusMachine\<close>. An event a
  state does not list leaves state and context as they are.
\<close>

fun transition :: "machine \<Rightarrow> status_event \<Rightarrow> machine" where
  "transition (Idle, c) (USER_PROMPT ts) =
     (Working, c\<lparr>lastActivityAt := ts, messageCount := messageCount c + 1\<rparr>)"
| "transition (Working, c) (USER_PROMPT ts) =
     (Working, c\<lparr>lastActivityAt := ts, messageCount := messageCount c + 1,
                 hasPendingToolUse := False, pendingToolIds := []\<rparr>)"
| "transition (Working, c) (ASSISTANT_STREAMING ts) =
     (Working, c\<lparr>lastActivityAt := ts\<rparr>)"
| "transition (Working, c) (ASSISTANT_TOOL_USE ts ids) =
     (Working, c\<lparr>lastActivityAt := ts, messageCount := messageCount c + 1,
                 hasPendingToolUse := True, pendingToolIds := ids\<rparr>)"
| "transition (Working, c) (TOOL_RESULT ts ids) =
     (Working, c\<lparr>lastActivityAt := ts, messageCount := messageCount c + 1,
                 pendingToolIds := remainingIds (pendingToolIds c) ids,
                 hasPendingToolUse := (length (remainingIds (pendingToolIds c) ids) > 0)\<rparr>)"
| "transition (Working, c) (TURN_END ts) =
     (Waiting_for_input, c\<lparr>lastActivityAt := ts, hasPendingToolUse := False,
                           pendingToolIds := []\<rparr>)"
| "transition (Working, c) APPROVAL_TIMEOUT = (Waiting_for_approval, c)"
| "transition (Working, c) STALE_TIMEOUT =
     (Waiting_for_input, c\<lparr>hasPendingToolUse := False\<rparr>)"
| "transition (Working, c) IDLE_TIMEOUT = (Idle, c)"
| "transition (Waiting_for_approval, c) (TOOL_RESULT ts ids) =
     (Working, c\<lparr>lastActivityAt := ts, messageCount := messageCount c + 1,
                 pendingToolIds := remainingIds (pendingToolIds c) ids,
                 hasPendingToolUse := (length (remainingIds (pendingToolIds c) ids) > 0)\<rparr>)"
| "transition (Waiting_for_approval, c) IDLE_TIMEOUT = (Idle, c)"
| "transition (Waiting_for_input, c) (USER_PROMPT ts) =
     (Working, c\<lparr>lastActivityAt := ts, messageCount := messageCount c + 1\<rparr>)"
| "transition (Waiting_for_input, c) IDLE_TIMEOUT = (Idle, c)"
| "transition m _ = m"

text \<open>Sending a sequence of events to the actor, one after the other.\<close>

fun sendAll :: "machine \<Rightarrow> status_event list \<Rightarrow> machine" where
  "sendAll m [] = m"
| "sendAll m (e # es) = sendAll (transition m e) es"

section \<open>The classifier\<close>

definition isToolResult :: "content_block \<Rightarrow> bool" where
  "isToolResult b = (case b of ToolResultBlock _ \<Rightarrow> True | _ \<Rightarrow> False)"

definition isText :: "content_block \<Rightarrow> bool" where
  "isText b = (case b of TextBlock _ \<Rightarrow> True | _ \<Rightarrow> False)"

text \<open>\<^verbatim>\<open>b.type === "tool_use" && b.name !== "Task"\<close>\<close>

definition isApprovalToolUse :: "content_block \<Rightarrow> bool" where
  "isApprovalToolUse b = (case b of ToolUseBlock _ n \<Rightarrow> n \<noteq> ''Task'' | _ \<Rightarrow> False)"

definition toolUseIdOf :: "content_block \<Rightarrow> string" where
  "toolUseIdOf b = (case b of ToolUseBlock i _ \<Rightarrow> i | _ \<Rightarrow> [])"

definition toolResultIds :: "content_block list \<Rightarrow> string list" where
  "toolResultIds bs = map tool_use_id (filter isToolResult bs)"

fun logEntryToEvent :: "log_entry \<Rightarrow> status_event option" where
  "logEntryToEvent (UserEntry ts (StringContent s)) = Some (USER_PROMPT ts)"
| "logEntryToEvent (UserEntry ts (BlockContent bs)) =
     (if length (toolResultIds bs) > 0 then Some (TOOL_RESULT ts (toolResultIds bs))
      else if list_ex isText bs then Some (USER_PROMPT ts)
      else None)"
| "logEntryToEvent (AssistantEntry ts bs) =
     (if length (filter isApprovalToolUse bs) > 0
      then Some (ASSISTANT_TOOL_USE ts (map toolUseIdOf (filter isApprovalToolUse bs)))
      else Some (ASSISTANT_STREAMING ts))"
| "logEntryToEvent (SystemEntry ts subtype) =
     (if subtype = ''turn_duration'' \<or> subtype = ''stop_hook_summary''
      then Some (TURN_END ts) else None)"
| "logEntryToEvent (OtherEntry ty) = None"

section \<open>Deriving the status\<close>

text \<open>
  The loop of \<^verbatim>\<open>deriveStatusFromMachine\<close>: every entry is classified and its event,
  if any, is sent to the actor.
\<close>

fun replay :: "machine \<Rightarrow> log_entry list \<Rightarrow> machine" where
  "replay m [] = m"
| "replay m (entry # entries) =
     replay (case logEntryToEvent entry of None \<Rightarrow> m | Some ev \<Rightarrow> transition m ev) entries"

definition IDLE_TIMEOUT_MS :: int where "IDLE_TIMEOUT_MS = 5 * 60 * 1000"
definition APPROVAL_TIMEOUT_MS :: int where "APPROVAL_TIMEOUT_MS = 5 * 1000"
definition STALE_TIMEOUT_MS :: int where "STALE_TIMEOUT_MS = 60 * 1000"

text \<open>
  \<^verbatim>\<open>new Date(s).getTime()\<close> is the runtime's; it is the parameter \<open>getTime\<close>, in
  milliseconds, with \<open>None\<close> for the NaN of an invalid date. The empty string is falsy,
  so the initial context reads as time 0. \<^verbatim>\<open>Date.now()\<close> is the parameter \<open>now\<close>.
\<close>

definition timeSinceActivity :: "(string \<Rightarrow> int option) \<Rightarrow> int \<Rightarrow> status_context \<Rightarrow> int option" where
  "timeSinceActivity getTime now c =
     (if lastActivityAt c = [] then Some (now - 0)
      else map_option (\<lambda>t. now - t) (getTime (lastActivityAt c)))"

text \<open>\<^verbatim>\<open>timeSinceActivity > limit\<close>; every comparison with NaN is false.\<close>

definition exceeds :: "int option \<Rightarrow> int \<Rightarrow> bool" where
  "exceeds d limit = (case d of None \<Rightarrow> False | Some v \<Rightarrow> v > limit)"

text \<open>The events the timeout check sends after the replay, in the order sent.\<close>

definition timeoutEvents :: "(string \<Rightarrow> int option) \<Rightarrow> int \<Rightarrow> machine \<Rightarrow> status_event list" where
  "timeoutEvents getTime now m =
     (let stateValue = fst m; context = snd m;
          elapsed = timeSinceActivity getTime now context
      in if exceeds elapsed IDLE_TIMEOUT_MS then [IDLE_TIMEOUT]
         else if stateValue = Working \<and> hasPendingToolUse context
                 \<and> exceeds elapsed APPROVAL_TIMEOUT_MS then [APPROVAL_TIMEOUT]
         else if stateValue = Working \<and> \<not> hasPendingToolUse context
                 \<and> exceeds elapsed STALE_TIMEOUT_MS then [STALE_TIMEOUT]
         else [])"

definition deriveStatusFromMachine ::
    "(string \<Rightarrow> int option) \<Rightarrow> int \<Rightarrow> log_entry list \<Rightarrow> machine" where
  "deriveStatusFromMachine getTime now entries =
     (let m = replay initialMachine entries
      in sendAll m (timeoutEvents getTime now m))"

datatype session_status = working | waiting | idle

datatype role = user | assistant

record status_result =
  status :: session_status
  lastRole :: role
  result_hasPendingToolUse :: bool
  result_lastActivityAt :: timestamp
  result_messageCount :: nat

fun machineStatusToResult :: "status_state \<Rightarrow> status_context \<Rightarrow> status_result" where
  "machineStatusToResult machineStatus context =
     \<lparr>status = (case machineStatus of
                   Working \<Rightarrow> working
                 | Waiting_for_approval \<Rightarrow> waiting
                 | Waiting_for_input \<Rightarrow> waiting
                 | Idle \<Rightarrow> idle),
      lastRole = assistant,
      result_hasPendingToolUse = hasPendingToolUse context,
      result_lastActivityAt = lastActivityAt context,
      result_messageCount = messageCount context\<rparr>"

definition deriveStatus :: "(string \<Rightarrow> int option) \<Rightarrow> int \<Rightarrow> log_entry list \<Rightarrow> status_result" where
  "deriveStatus getTime now entries =
     (case deriveStatusFromMachine getTime now entries of
        (machineStatus, context) \<Rightarrow> machineStatusToResult machineStatus context)"

fun statusChanged :: "status_result option \<Rightarrow> status_result \<Rightarrow> bool" where
  "statusChanged None next = True"
| "statusChanged (Some prev) next =
     (status prev \<noteq> status next \<or> lastRole prev \<noteq> lastRole next
      \<or> result_hasPendingToolUse prev \<noteq> result_hasPendingToolUse next)"

section \<open>The session watcher\<close>

text \<open>
  \<^verbatim>\<open>watcher.ts\<close>: the registry of sessions and the pending-permission signals. The
  sessions are a JavaScript \<^verbatim>\<open>Map\<close>, which iterates in insertion order, so they are an
  association list here (\<open>AList.update\<close> keeps the place of a key that is present and
  appends a new one, as \<^verbatim>\<open>Map.set\<close> does). Each handler takes the watcher state and
  returns the new state with the events it emitted, in order.
\<close>

record pending_permission =
  session_id :: string
  tool_name :: string
  pending_since :: string

record session_metadata =
  meta_sessionId :: string
  meta_cwd :: string
  meta_gitBranch :: "string option"
  meta_originalPrompt :: string
  meta_startedAt :: string

record git_info =
  repoUrl :: "string option"
  repoId :: "string option"
  branch :: "string option"
  isGitRepo :: bool

record session_state =
  sessionId :: string
  filepath :: string
  encodedDir :: string
  cwd :: string
  gitBranch :: "string option"
  originalPrompt :: string
  startedAt :: string
  session_status :: status_result
  entries :: "log_entry list"
  bytePosition :: nat
  gitRepoUrl :: "string option"
  gitRepoId :: "string option"
  branchChanged :: bool
  pendingPermission :: "pending_permission option"

datatype event_type = created | updated | deleted

record session_event =
  event_type :: event_type
  session :: session_state
  previousStatus :: "status_result option"

datatype emitted = SessionEvent session_event | ErrorEvent

record watcher =
  sessions :: "(string \<times> session_state) list"
  pendingPermissions :: "string \<rightharpoonup> pending_permission"

definition initialWatcher :: watcher where
  "initialWatcher = \<lparr>sessions = [], pendingPermissions = Map.empty\<rparr>"

text \<open>
  The helpers of \<^verbatim>\<open>parser.js\<close> that \<^verbatim>\<open>handleFile\<close> calls on a path or on the entries
  lie outside the verified files; they are parameters, together with the runtime's date
  parsing.
\<close>

record parser =
  extractSessionId :: "string \<Rightarrow> string"
  extractEncodedDir :: "string \<Rightarrow> string"
  extractMetadata :: "log_entry list \<Rightarrow> session_metadata option"
  getTime :: "string \<Rightarrow> int option"

text \<open>
  What \<^verbatim>\<open>await tailJSONL(filepath, fromByte)\<close> gave on this pass: the new entries and
  the new position, or the exception it threw (\<^verbatim>\<open>ENOENT\<close> is swallowed by the handler,
  any other error is emitted).
\<close>

datatype read_outcome = ReadOk "log_entry list" nat | ReadENOENT | ReadFailed

text \<open>\<^verbatim>\<open>{...status, status: "waiting", hasPendingToolUse: true}\<close>\<close>

definition overlay :: "status_result \<Rightarrow> status_result" where
  "overlay s = s\<lparr>status := waiting, result_hasPendingToolUse := True\<rparr>"

definition isToolResultEntry :: "log_entry \<Rightarrow> bool" where
  "isToolResultEntry entry =
     (case entry of
        UserEntry ts (BlockContent bs) \<Rightarrow> list_ex isToolResult bs
      | _ \<Rightarrow> False)"

definition clearPendingPermission :: "string \<Rightarrow> watcher \<Rightarrow> watcher" where
  "clearPendingPermission sid w =
     (if pendingPermissions w sid = None then w
      else w\<lparr>pendingPermissions := (pendingPermissions w)(sid := None)\<rparr>)"

text \<open>
  \<^verbatim>\<open>handleFile\<close>, block by block. The metadata of an existing session is read off the
  session; a new session's is extracted from the entries and may be missing.
\<close>

definition metadataFor ::
    "parser \<Rightarrow> session_state option \<Rightarrow> log_entry list \<Rightarrow> session_metadata option" where
  "metadataFor P existingSession allEntries =
     (case existingSession of
        Some ex \<Rightarrow>
          Some \<lparr>meta_sessionId = sessionId ex, meta_cwd = cwd ex, meta_gitBranch = gitBranch ex,
                meta_originalPrompt = originalPrompt ex, meta_startedAt = startedAt ex\<rparr>
      | None \<Rightarrow> extractMetadata P allEntries)"

text \<open>
  The git info and the branch-changed flag. \<open>currentGit\<close> is what
  \<^verbatim>\<open>getGitInfoCached(metadata.cwd)\<close> gave on this pass: a new session takes it as it
  is, an existing session keeps its cached info unless the branch differs.
\<close>

definition gitInfoFor :: "session_state option \<Rightarrow> git_info \<Rightarrow> git_info \<times> bool" where
  "gitInfoFor existingSession currentGit =
     (case existingSession of
        None \<Rightarrow> (currentGit, False)
      | Some ex \<Rightarrow>
          if branch currentGit \<noteq> gitBranch ex then (currentGit, True)
          else (\<lparr>repoUrl = gitRepoUrl ex, repoId = gitRepoId ex, branch = gitBranch ex,
                 isGitRepo = (gitRepoUrl ex \<noteq> None \<or> gitBranch ex \<noteq> None)\<rparr>, False))"

text \<open>A tool result among the new entries clears the session's pending permission.\<close>

definition clearIfToolResult :: "string \<Rightarrow> log_entry list \<Rightarrow> watcher \<Rightarrow> watcher" where
  "clearIfToolResult sid newEntries w =
     (if list_ex isToolResultEntry newEntries \<and> pendingPermissions w sid \<noteq> None
      then clearPendingPermission sid w else w)"

text \<open>The derived status, overridden when a pending permission is present.\<close>

definition statusFor ::
    "parser \<Rightarrow> int \<Rightarrow> log_entry list \<Rightarrow> pending_permission option \<Rightarrow> status_result" where
  "statusFor P now allEntries pending =
     (let derived = deriveStatus (getTime P) now allEntries
      in case pending of Some p \<Rightarrow> overlay derived | None \<Rightarrow> derived)"

text \<open>\<^verbatim>\<open>gitInfo.branch || metadata.gitBranch\<close>: null and the empty string are falsy.\<close>

definition orElse :: "string option \<Rightarrow> string option \<Rightarrow> string option" where
  "orElse a b = (case a of None \<Rightarrow> b | Some v \<Rightarrow> if v = [] then b else Some v)"

definition buildSession ::
    "parser \<Rightarrow> string \<Rightarrow> string \<Rightarrow> session_metadata \<Rightarrow> git_info \<Rightarrow> bool \<Rightarrow> status_result
       \<Rightarrow> log_entry list \<Rightarrow> nat \<Rightarrow> pending_permission option \<Rightarrow> session_state" where
  "buildSession P path sid md gitInfo changed st allEntries newPosition pending =
     \<lparr>sessionId = sid, filepath = path, encodedDir = extractEncodedDir P path,
      cwd = meta_cwd md, gitBranch = orElse (branch gitInfo) (meta_gitBranch md),
      originalPrompt = meta_originalPrompt md, startedAt = meta_startedAt md,
      session_status = st, entries = allEntries, bytePosition = newPosition,
      gitRepoUrl = repoUrl gitInfo, gitRepoId = repoId gitInfo,
      branchChanged = changed, pendingPermission = pending\<rparr>"

text \<open>The event of the pass, if any: created, updated, or none.\<close>

definition sessionEvents :: "session_state option \<Rightarrow> session_state \<Rightarrow> bool \<Rightarrow> emitted list" where
  "sessionEvents existingSession s changed =
     (let prev = map_option session_status existingSession;
          isNew = (existingSession = None);
          hasStatusChange = statusChanged prev (session_status s);
          hasNewMessages = (case existingSession of
                              Some ex \<Rightarrow> result_messageCount (session_status s)
                                          > result_messageCount (session_status ex)
                            | None \<Rightarrow> False)
      in if isNew
         then [SessionEvent \<lparr>event_type = created, session = s, previousStatus = None\<rparr>]
         else if hasStatusChange \<or> hasNewMessages \<or> changed
         then [SessionEvent \<lparr>event_type = updated, session = s, previousStatus = prev\<rparr>]
         else [])"

definition handleFile ::
    "parser \<Rightarrow> int \<Rightarrow> string \<Rightarrow> read_outcome \<Rightarrow> git_info \<Rightarrow> watcher \<Rightarrow> watcher \<times> emitted list" where
  "handleFile P now path rd currentGit w =
     (let sid = extractSessionId P path;
          existingSession = map_of (sessions w) sid
      in case rd of
           ReadENOENT \<Rightarrow> (w, [])
         | ReadFailed \<Rightarrow> (w, [ErrorEvent])
         | ReadOk newEntries newPosition \<Rightarrow>
             if newEntries = [] \<and> existingSession \<noteq> None then (w, [])
             else
               let allEntries = (case existingSession of
                                   Some ex \<Rightarrow> entries ex @ newEntries
                                 | None \<Rightarrow> newEntries)
               in case metadataFor P existingSession allEntries of
                    None \<Rightarrow> (w, [])
                  | Some md \<Rightarrow>
                      let (gitInfo, changed) = gitInfoFor existingSession currentGit;
                          w1 = clearIfToolResult sid newEntries w;
                          pending = pendingPermissions w1 sid;
                          st = statusFor P now allEntries pending;
                          s = buildSession P path sid md gitInfo changed st allEntries
                                newPosition pending;
                          w2 = w1\<lparr>sessions := AList.update sid s (sessions w1)\<rparr>
                      in (w2, sessionEvents existingSession s changed))"

text \<open>
  \<^verbatim>\<open>handlePendingPermission\<close>: the argument is the signal file's content as parsed,
  \<open>None\<close> when reading or parsing threw. A missing or empty \<^verbatim>\<open>session_id\<close> is falsy.
\<close>

definition handlePendingPermission :: "pending_permission option \<Rightarrow> watcher \<Rightarrow> watcher \<times> emitted list" where
  "handlePendingPermission parsed w =
     (case parsed of
        None \<Rightarrow> (w, [])
      | Some permission \<Rightarrow>
          let sid = session_id permission
          in if sid = [] then (w, [])
             else
               let w1 = w\<lparr>pendingPermissions := (pendingPermissions w)(sid \<mapsto> permission)\<rparr>
               in case map_of (sessions w1) sid of
                    None \<Rightarrow> (w1, [])
                  | Some s \<Rightarrow>
                      let s' = s\<lparr>pendingPermission := Some permission,
                                 session_status := overlay (session_status s)\<rparr>
                      in (w1\<lparr>sessions := AList.update sid s' (sessions w1)\<rparr>,
                          [SessionEvent \<lparr>event_type = updated, session = s',
                                         previousStatus = Some (session_status s)\<rparr>]))"

text \<open>\<^verbatim>\<open>filepath.split("/").pop() || ""\<close>: the part after the last slash.\<close>

definition lastSegment :: "string \<Rightarrow> string" where
  "lastSegment p = rev (takeWhile (\<lambda>c. c \<noteq> CHR ''/'') (rev p))"

text \<open>\<^verbatim>\<open>s.replace(pat, "")\<close> with a string pattern: the first occurrence is removed.\<close>

fun removeFirst :: "string \<Rightarrow> string \<Rightarrow> string" where
  "removeFirst pat [] = []"
| "removeFirst pat (c # cs) =
     (if take (length pat) (c # cs) = pat then drop (length pat) (c # cs)
      else c # removeFirst pat cs)"

definition signalSessionId :: "string \<Rightarrow> string" where
  "signalSessionId path = removeFirst ''.json'' (lastSegment path)"

definition handlePendingPermissionRemoved ::
    "parser \<Rightarrow> int \<Rightarrow> string \<Rightarrow> watcher \<Rightarrow> watcher \<times> emitted list" where
  "handlePendingPermissionRemoved P now path w =
     (let sid = signalSessionId path
      in if sid = [] then (w, [])
         else
           let w1 = w\<lparr>pendingPermissions := (pendingPermissions w)(sid := None)\<rparr>
           in case map_of (sessions w1) sid of
                None \<Rightarrow> (w1, [])
              | Some s \<Rightarrow>
                  (case pendingPermission s of
                     None \<Rightarrow> (w1, [])
                   | Some p \<Rightarrow>
                       let s' = s\<lparr>pendingPermission := None,
                                  session_status := deriveStatus (getTime P) now (entries s)\<rparr>
                       in (w1\<lparr>sessions := AList.update sid s' (sessions w1)\<rparr>,
                           [SessionEvent \<lparr>event_type = updated, session = s',
                                          previousStatus = Some (session_status s)\<rparr>])))"

text \<open>
  \<^verbatim>\<open>checkStaleSessions\<close>: the loop over \<^verbatim>\<open>sessions.values()\<close>, in the map's order. The
  sweep is one synchronous pass and takes one reading of the clock.
\<close>

fun sweep :: "parser \<Rightarrow> int \<Rightarrow> (string \<times> session_state) list
                \<Rightarrow> (string \<times> session_state) list \<times> emitted list" where
  "sweep P now [] = ([], [])"
| "sweep P now ((k, s) # rest) =
     (let (rest', evs) = sweep P now rest
      in if status (session_status s) \<noteq> working then ((k, s) # rest', evs)
         else
           let newStatus = deriveStatus (getTime P) now (entries s)
           in if statusChanged (Some (session_status s)) newStatus
              then (let s' = s\<lparr>session_status := newStatus\<rparr>
                    in ((k, s') # rest',
                        SessionEvent \<lparr>event_type = updated, session = s',
                                      previousStatus = Some (session_status s)\<rparr> # evs))
              else ((k, s) # rest', evs))"

definition checkStaleSessions :: "parser \<Rightarrow> int \<Rightarrow> watcher \<Rightarrow> watcher \<times> emitted list" where
  "checkStaleSessions P now w =
     (let (ss, evs) = sweep P now (sessions w) in (w\<lparr>sessions := ss\<rparr>, evs))"

definition handleDelete :: "parser \<Rightarrow> string \<Rightarrow> watcher \<Rightarrow> watcher \<times> emitted list" where
  "handleDelete P path w =
     (let sid = extractSessionId P path
      in case map_of (sessions w) sid of
           None \<Rightarrow> (w, [])
         | Some s \<Rightarrow>
             (w\<lparr>sessions := AList.delete sid (sessions w)\<rparr>,
              [SessionEvent \<lparr>event_type = deleted, session = s, previousStatus = None\<rparr>]))"

text \<open>
  The notifications the watcher reacts to, each with what the file system, the clock and
  the git lookup gave on that pass; a run handles them one after the other.
\<close>

datatype notification =
    LogChanged string read_outcome git_info int
  | SignalWritten "pending_permission option"
  | SignalRemoved string int
  | StaleTick int
  | LogDeleted string

fun handle :: "parser \<Rightarrow> notification \<Rightarrow> watcher \<Rightarrow> watcher \<times> emitted list" where
  "handle P (LogChanged path rd git now) w = handleFile P now path rd git w"
| "handle P (SignalWritten parsed) w = handlePendingPermission parsed w"
| "handle P (SignalRemoved path now) w = handlePendingPermissionRemoved P now path w"
| "handle P (StaleTick now) w = checkStaleSessions P now w"
| "handle P (LogDeleted path) w = handleDelete P path w"

fun run :: "parser \<Rightarrow> watcher \<Rightarrow> notification list \<Rightarrow> watcher \<times> emitted list" where
  "run P w [] = (w, [])"
| "run P w (n # ns) =
     (let (w1, evs1) = handle P n w; (w2, evs2) = run P w1 ns in (w2, evs1 @ evs2))"

section \<open>The log reader\<close>

text \<open>The record delimiter of a JSONL file.\<close>

definition newline :: char where "newline = CHR 0x0A"

text \<open>
  Modelled from the spec: \<^verbatim>\<open>tailJSONL\<close> of \<^verbatim>\<open>parser.ts\<close>, which lies outside the
  verified files (only its call in \<^verbatim>\<open>handleFile\<close> is inside). Given the file's content and a
  starting byte offset it returns the records of the complete lines after that offset and
  the offset to resume from. A line is complete when its newline delimiter is there; what
  follows the last delimiter is a partial write and is not consumed. A complete line that
  does not parse (\<open>parse\<close> gives \<open>None\<close>: malformed or blank) is skipped and does not
  block the lines after it. Parsing one line is the parameter \<open>parse\<close>.
\<close>

function scanLines :: "(string \<Rightarrow> 'r option) \<Rightarrow> string \<Rightarrow> 'r list \<times> nat" where
  "scanLines parse bytes =
     (if newline \<notin> set bytes then ([], 0)
      else
        let line = takeWhile (\<lambda>c. c \<noteq> newline) bytes;
            rest = tl (dropWhile (\<lambda>c. c \<noteq> newline) bytes);
            (records, consumed) = scanLines parse rest
        in ((case parse line of None \<Rightarrow> records | Some r \<Rightarrow> r # records),
            length line + 1 + consumed))"
  by pat_completeness auto
termination
proof (relation "measure (\<lambda>(parse, bytes). length bytes)")
  show "wf (measure (\<lambda>(parse, bytes). length bytes))" by simp
next
  fix parse :: "string \<Rightarrow> 'r option" and bytes x xa
  assume "\<not> newline \<notin> set bytes" and "x = takeWhile (\<lambda>c. c \<noteq> newline) bytes"
    and "xa = tl (dropWhile (\<lambda>c. c \<noteq> newline) bytes)"
  then have "dropWhile (\<lambda>c. c \<noteq> newline) bytes \<noteq> []" by (simp add: dropWhile_eq_Nil_conv)
  then have "length (tl (dropWhile (\<lambda>c. c \<noteq> newline) bytes)) < length (dropWhile (\<lambda>c. c \<noteq> newline) bytes)"
    by (cases "dropWhile (\<lambda>c. c \<noteq> newline) bytes") simp_all
  also have "\<dots> \<le> length bytes" by (rule length_dropWhile_le)
  finally show "((parse, xa), (parse, bytes)) \<in> measure (\<lambda>(parse, bytes). length bytes)"
    using \<open>xa = _\<close> by simp
qed

declare scanLines.simps [simp del]

text \<open>
  Modelled from the spec: the reader proper (the missing \<^verbatim>\<open>tailJSONL\<close>), from a byte
  offset: the new records and the new offset, which advances past the complete lines only.
\<close>

definition tailJSONL :: "(string \<Rightarrow> 'r option) \<Rightarrow> string \<Rightarrow> nat \<Rightarrow> 'r list \<times> nat" where
  "tailJSONL parse content fromByte =
     (let (records, consumed) = scanLines parse (drop fromByte content)
      in (records, fromByte + consumed))"

text \<open>
  Incremental reads of a growing file: each read sees the content of its time and resumes
  from the offset the read before it returned. A file grows by appending.
\<close>

fun readAll :: "(string \<Rightarrow> 'r option) \<Rightarrow> nat \<Rightarrow> string list \<Rightarrow> ('r list \<times> nat) list" where
  "readAll parse offset [] = []"
| "readAll parse offset (content # later) =
     (let r = tailJSONL parse content offset in r # readAll parse (snd r) later)"

fun growing :: "string list \<Rightarrow> bool" where
  "growing [] = True"
| "growing [c] = True"
| "growing (c # c' # cs) = (prefix c c' \<and> growing (c' # cs))"

text \<open>The records of a read are parsed from the bytes between its two offsets.\<close>

definition parsedFrom :: "(string \<Rightarrow> 'r option) \<Rightarrow> string \<Rightarrow> nat \<times> nat \<Rightarrow> 'r list" where
  "parsedFrom parse content span =
     fst (scanLines parse (take (snd span - fst span) (drop (fst span) content)))"

text \<open>A sample line parser and three successive contents of a log.\<close>

definition sampleParse :: "string \<Rightarrow> string option" where
  "sampleParse line = (if line = [] \<or> line = ''broken'' then None else Some line)"

definition sampleContents :: "string list" where
  "sampleContents =
     [''a'' @ newline # ''b'',
      ''a'' @ newline # ''b'' @ newline # ''broken'' @ newline # newline # ''c'',
      ''a'' @ newline # ''b'' @ newline # ''broken'' @ newline # newline # ''c'' @ [newline]]"

section \<open>Predicates and sample data for the properties\<close>

text \<open>The pending flag agrees with the pending set.\<close>

definition consistent :: "status_context \<Rightarrow> bool" where
  "consistent c = (hasPendingToolUse c = (pendingToolIds c \<noteq> []))"

text \<open>
  The events the engine itself sends: the classifier builds \<open>ASSISTANT_TOOL_USE\<close> only
  with at least one id, and \<^verbatim>\<open>deriveStatusFromMachine\<close> sends \<open>STALE_TIMEOUT\<close> only
  while \<^verbatim>\<open>hasPendingToolUse\<close> is false.
\<close>

fun engineSends :: "machine \<Rightarrow> status_event \<Rightarrow> bool" where
  "engineSends m (ASSISTANT_TOOL_USE ts ids) = (ids \<noteq> [])"
| "engineSends m STALE_TIMEOUT = (\<not> hasPendingToolUse (snd m))"
| "engineSends m _ = True"

fun admissible :: "machine \<Rightarrow> status_event list \<Rightarrow> bool" where
  "admissible m [] = True"
| "admissible m (e # es) = (engineSends m e \<and> admissible (transition m e) es)"

text \<open>
  The classifier's id lists in the specification's words: the ids the tool-result blocks
  refer to, and the ids of the tool-use blocks that are not named Task.
\<close>

definition referencedToolUseIds :: "content_block list \<Rightarrow> string list" where
  "referencedToolUseIds bs =
     concat (map (\<lambda>b. case b of ToolResultBlock i \<Rightarrow> [i] | _ \<Rightarrow> []) bs)"

definition approvalToolUseIds :: "content_block list \<Rightarrow> string list" where
  "approvalToolUseIds bs =
     concat (map (\<lambda>b. case b of ToolUseBlock i n \<Rightarrow> if n = ''Task'' then [] else [i]
                              | _ \<Rightarrow> []) bs)"

text \<open>A sample log (scenarios B to F of the specification) and a clock for its timestamps.\<close>

definition scenarioF :: "log_entry list" where
  "scenarioF =
     [UserEntry ''2025-01-01T00:00:00.000Z'' (StringContent ''fix the bug''),
      AssistantEntry ''2025-01-01T00:00:01.000Z'' [ToolUseBlock ''toolu_1'' ''Edit''],
      UserEntry ''2025-01-01T00:00:02.000Z'' (BlockContent [ToolResultBlock ''toolu_1'']),
      SystemEntry ''2025-01-01T00:00:03.000Z'' ''turn_duration'']"

definition sampleClock :: "string \<Rightarrow> int option" where
  "sampleClock = map_of
     [(''2025-01-01T00:00:00.000Z'', 1735689600000),
      (''2025-01-01T00:00:01.000Z'', 1735689601000),
      (''2025-01-01T00:00:02.000Z'', 1735689602000),
      (''2025-01-01T00:00:03.000Z'', 1735689603000)]"

section \<open>Predicates and sample data for the watcher\<close>

text \<open>The fields of a status result that the permission overlay leaves alone.\<close>

definition frame :: "status_result \<Rightarrow> timestamp \<times> nat \<times> role" where
  "frame r = (result_lastActivityAt r, result_messageCount r, lastRole r)"

text \<open>
  What holds of every registered session: its pending-permission field mirrors the signal
  map, a present signal shows as the overlaid status, the frame fields are those of the
  status derived from its entries, and it is registered under its own id.
\<close>

definition sessionInv :: "parser \<Rightarrow> watcher \<Rightarrow> string \<Rightarrow> session_state \<Rightarrow> bool" where
  "sessionInv P w sid s =
     ((pendingPermission s \<noteq> None) = (pendingPermissions w sid \<noteq> None)
      \<and> (pendingPermissions w sid \<noteq> None \<longrightarrow>
            status (session_status s) = waiting \<and> result_hasPendingToolUse (session_status s))
      \<and> (\<forall>t. frame (session_status s) = frame (deriveStatus (getTime P) t (entries s)))
      \<and> sessionId s = sid)"

definition watcherInv :: "parser \<Rightarrow> watcher \<Rightarrow> bool" where
  "watcherInv P w = (\<forall>sid s. map_of (sessions w) sid = Some s \<longrightarrow> sessionInv P w sid s)"

text \<open>What the stale sweep does to one session.\<close>

definition sweepOne :: "parser \<Rightarrow> int \<Rightarrow> session_state \<Rightarrow> session_state" where
  "sweepOne P now s =
     (if status (session_status s) = working
         \<and> statusChanged (Some (session_status s)) (deriveStatus (getTime P) now (entries s))
      then s\<lparr>session_status := deriveStatus (getTime P) now (entries s)\<rparr> else s)"

text \<open>
  A pass of \<^verbatim>\<open>handleFile\<close> goes through when the read succeeded and either the session
  exists and there are new entries, or it is new and its metadata can be extracted.
\<close>

definition proceeds :: "parser \<Rightarrow> string \<Rightarrow> read_outcome \<Rightarrow> watcher \<Rightarrow> bool" where
  "proceeds P path rd w =
     (case rd of
        ReadOk newEntries newPosition \<Rightarrow>
          (case map_of (sessions w) (extractSessionId P path) of
             Some ex \<Rightarrow> newEntries \<noteq> []
           | None \<Rightarrow> extractMetadata P newEntries \<noteq> None)
      | _ \<Rightarrow> False)"





text \<open>An event of the given type is among the emitted ones.\<close>

definition publishes :: "event_type \<Rightarrow> emitted list \<Rightarrow> bool" where
  "publishes ty evs =
     list_ex (\<lambda>e. case e of SessionEvent ev \<Rightarrow> event_type ev = ty | ErrorEvent \<Rightarrow> False) evs"

text \<open>
  Sample instances of the parser helpers, a git lookup result, a permission signal and a
  watcher run, to evaluate the handlers on concrete inputs.
\<close>

definition sampleParser :: parser where
  "sampleParser =
     \<lparr>extractSessionId = (\<lambda>p. removeFirst ''.jsonl'' (lastSegment p)),
      extractEncodedDir = (\<lambda>p. ''-p''),
      extractMetadata = (\<lambda>es. case es of
           [] \<Rightarrow> None
         | e # _ \<Rightarrow> Some \<lparr>meta_sessionId = ''s1'', meta_cwd = ''/p'', meta_gitBranch = None,
                         meta_originalPrompt = ''fix the bug'',
                         meta_startedAt = ''2025-01-01T00:00:00.000Z''\<rparr>),
      getTime = sampleClock\<rparr>"

definition sampleGit :: git_info where
  "sampleGit = \<lparr>repoUrl = None, repoId = None, branch = Some ''main'', isGitRepo = True\<rparr>"

definition samplePermission :: pending_permission where
  "samplePermission = \<lparr>session_id = ''s1'', tool_name = ''Edit'', pending_since = ''1735689601500''\<rparr>"

definition sampleRun :: "notification list" where
  "sampleRun =
     [LogChanged ''/p/s1.jsonl'' (ReadOk (take 2 scenarioF) 300) sampleGit 1735689601000,
      SignalWritten (Some samplePermission)]"


definition sampleSession :: session_state where
  "sampleSession =
     \<lparr>sessionId = ''s1'', filepath = ''/p/s1.jsonl'', encodedDir = ''-p'', cwd = ''/p'',
      gitBranch = Some ''main'', originalPrompt = ''fix the bug'',
      startedAt = ''2025-01-01T00:00:00.000Z'',
      session_status = \<lparr>status = waiting, lastRole = assistant, result_hasPendingToolUse = True,
                        result_lastActivityAt = ''2025-01-01T00:00:01.000Z'',
                        result_messageCount = 2\<rparr>,
      entries = take 2 scenarioF, bytePosition = 300, gitRepoUrl = None, gitRepoId = None,
      branchChanged = False, pendingPermission = Some samplePermission\<rparr>"

definition sampleWatcher :: watcher where
  "sampleWatcher =
     \<lparr>sessions = [(''s1'', sampleSession)],
      pendingPermissions = [''s1'' \<mapsto> samplePermission]\<rparr>"

section \<open>The status machine keeps the pending flag and the pending set together\<close>

lemma transition_consistent:
  "consistent (snd m) \<Longrightarrow> engineSends m e \<Longrightarrow> consistent (snd (transition m e))"
  by (cases "(m, e)" rule: transition.cases) (auto simp: consistent_def)

lemma sendAll_consistent:
  "consistent (snd m) \<Longrightarrow> admissible m es \<Longrightarrow> consistent (snd (sendAll m es))"
proof (induction es arbitrary: m)
  case Nil
  then show ?case by simp
next
  case (Cons e es)
  from Cons.prems have "consistent (snd (transition m e))"
    by (simp add: transition_consistent)
  moreover from Cons.prems have "admissible (transition m e) es" by simp
  ultimately show ?case using Cons.IH by simp
qed

lemma initial_consistent: "consistent (snd initialMachine)"
  by (simp add: initialMachine_def initialContext_def consistent_def)

lemma classifier_engineSends: "logEntryToEvent e = Some ev \<Longrightarrow> engineSends m ev"
  by (cases e rule: logEntryToEvent.cases) (auto split: if_splits)

lemma replay_consistent: "consistent (snd m) \<Longrightarrow> consistent (snd (replay m es))"
proof (induction es arbitrary: m)
  case Nil
  then show ?case by simp
next
  case (Cons e es)
  show ?case
  proof (cases "logEntryToEvent e")
    case None
    with Cons show ?thesis by simp
  next
    case (Some ev)
    with Cons show ?thesis
      by (simp add: transition_consistent classifier_engineSends)
  qed
qed

lemma timeoutEvents_admissible: "admissible m (timeoutEvents g now m)"
  by (cases m) (simp add: timeoutEvents_def Let_def)

text \<open>
  Every status the engine derives from a log, at any evaluation time, has a consistent
  context: the classifier and the timeout check send admissible events only.
\<close>

lemma derive_consistent: "consistent (snd (deriveStatusFromMachine g now es))"
  unfolding deriveStatusFromMachine_def Let_def
  by (intro sendAll_consistent replay_consistent initial_consistent timeoutEvents_admissible)

text \<open>
  C1, as stated, fails: over arbitrary event sequences the flag and the set come apart.
  An \<open>ASSISTANT_TOOL_USE\<close> with no ids sets the flag over an empty set, and a
  \<open>STALE_TIMEOUT\<close> sent while tools are pending clears the flag and keeps the set.
\<close>

theorem pending_consistency_counterexample:
  "\<not> consistent (snd (sendAll initialMachine [USER_PROMPT ''t1'', ASSISTANT_TOOL_USE ''t2'' []]))
   \<and> \<not> consistent (snd (sendAll initialMachine
          [USER_PROMPT ''t1'', ASSISTANT_TOOL_USE ''t2'' [''toolu_1''], STALE_TIMEOUT]))"
  by (simp add: initialMachine_def initialContext_def consistent_def)

text \<open>
  C1, amended: for every sequence of status events in which each \<open>ASSISTANT_TOOL_USE\<close>
  carries at least one id and \<open>STALE_TIMEOUT\<close> arrives only while \<^verbatim>\<open>hasPendingToolUse\<close>
  is false, applied to the machine from its initial state, the resulting context has
  \<^verbatim>\<open>hasPendingToolUse\<close> true if and only if \<^verbatim>\<open>pendingToolIds\<close> is non-empty; so has
  the context of every status \<^verbatim>\<open>deriveStatusFromMachine\<close> returns, for any log and any
  evaluation time.
\<close>

theorem pending_set_consistency:
  assumes "admissible initialMachine es"
  shows "consistent (snd (sendAll initialMachine es))
       \<and> consistent (snd (deriveStatusFromMachine g now records))"
  using sendAll_consistent[OF initial_consistent assms] derive_consistent[of g now records]
  by simp

theorem pending_set_consistency_witness:
  "admissible initialMachine
      [USER_PROMPT ''t1'', ASSISTANT_TOOL_USE ''t2'' [''a'', ''b''], TOOL_RESULT ''t3'' [''a''],
       TOOL_RESULT ''t4'' [''b''], STALE_TIMEOUT]
   \<and> consistent (snd (sendAll initialMachine
      [USER_PROMPT ''t1'', ASSISTANT_TOOL_USE ''t2'' [''a'', ''b''], TOOL_RESULT ''t3'' [''a''],
       TOOL_RESULT ''t4'' [''b''], STALE_TIMEOUT]))
   \<and> consistent (snd (deriveStatusFromMachine sampleClock 1735689608000 (take 2 scenarioF)))"
proof -
  have a: "admissible initialMachine
      [USER_PROMPT ''t1'', ASSISTANT_TOOL_USE ''t2'' [''a'', ''b''], TOOL_RESULT ''t3'' [''a''],
       TOOL_RESULT ''t4'' [''b''], STALE_TIMEOUT]"
    by (simp add: initialMachine_def initialContext_def remainingIds_def)
  from a pending_set_consistency[OF a, of sampleClock 1735689608000 "take 2 scenarioF"]
  show ?thesis by simp
qed

section \<open>The derived status and the evaluation time\<close>

text \<open>
  C2, as stated, fails: the derived status depends on when the evaluation runs. One
  user prompt, evaluated one second and sixty-one seconds after it, gives \<open>Working\<close>
  and \<open>Waiting_for_input\<close>.
\<close>

theorem determinism_counterexample:
  "deriveStatusFromMachine sampleClock 1735689601000 (take 1 scenarioF)
     \<noteq> deriveStatusFromMachine sampleClock 1735689661000 (take 1 scenarioF)"
  by (simp add: scenarioF_def sampleClock_def deriveStatusFromMachine_def initialMachine_def
      initialContext_def timeoutEvents_def timeSinceActivity_def exceeds_def
      IDLE_TIMEOUT_MS_def APPROVAL_TIMEOUT_MS_def STALE_TIMEOUT_MS_def)

text \<open>
  C2, amended: for every finite sequence of log records, two evaluations of
  \<^verbatim>\<open>deriveStatusFromMachine\<close> yield identical (status, context) pairs whenever the
  elapsed time since the last activity lies on the same side of each of the three timeout
  thresholds at both evaluation times (in particular at equal times); the result depends
  on the evaluation time only through the timeout check.
\<close>

theorem derive_same_band:
  assumes "exceeds (timeSinceActivity g now1 (snd (replay initialMachine es))) IDLE_TIMEOUT_MS
           = exceeds (timeSinceActivity g now2 (snd (replay initialMachine es))) IDLE_TIMEOUT_MS"
    and "exceeds (timeSinceActivity g now1 (snd (replay initialMachine es))) APPROVAL_TIMEOUT_MS
           = exceeds (timeSinceActivity g now2 (snd (replay initialMachine es))) APPROVAL_TIMEOUT_MS"
    and "exceeds (timeSinceActivity g now1 (snd (replay initialMachine es))) STALE_TIMEOUT_MS
           = exceeds (timeSinceActivity g now2 (snd (replay initialMachine es))) STALE_TIMEOUT_MS"
  shows "deriveStatusFromMachine g now1 es = deriveStatusFromMachine g now2 es"
  using assms by (simp add: deriveStatusFromMachine_def timeoutEvents_def Let_def)

theorem derive_same_band_witness:
  "deriveStatusFromMachine sampleClock 1735689601000 (take 1 scenarioF)
     = deriveStatusFromMachine sampleClock 1735689603000 (take 1 scenarioF)"
proof -
  have r: "snd (replay initialMachine (take 1 scenarioF))
             = \<lparr>lastActivityAt = ''2025-01-01T00:00:00.000Z'', messageCount = 1,
                hasPendingToolUse = False, pendingToolIds = []\<rparr>"
    by (simp add: scenarioF_def initialMachine_def initialContext_def)
  show ?thesis
    by (rule derive_same_band)
       (simp_all add: r timeSinceActivity_def sampleClock_def exceeds_def
          IDLE_TIMEOUT_MS_def APPROVAL_TIMEOUT_MS_def STALE_TIMEOUT_MS_def)
qed

section \<open>The timeout check\<close>

text \<open>
  C3: after the replay the engine sends at most one timeout event: \<open>IDLE_TIMEOUT\<close>
  whenever more than 5 minutes have elapsed since \<^verbatim>\<open>lastActivityAt\<close>; otherwise
  \<open>APPROVAL_TIMEOUT\<close> when the machine is in \<open>Working\<close> with a pending tool use and
  more than 5 seconds have elapsed; otherwise \<open>STALE_TIMEOUT\<close> when it is in \<open>Working\<close>
  with no pending tool use and more than 60 seconds have elapsed. A session in
  \<open>Working\<close> with pending tools whose last activity is 6 minutes old ends idle.
\<close>

theorem timeout_injection:
  "length (timeoutEvents g now m) \<le> 1
   \<and> deriveStatusFromMachine g now es =
       sendAll (replay initialMachine es) (timeoutEvents g now (replay initialMachine es))
   \<and> (timeSinceActivity g now c = Some d \<longrightarrow>
        timeoutEvents g now (st, c) =
          (if d > 300000 then [IDLE_TIMEOUT]
           else if st = Working \<and> hasPendingToolUse c \<and> d > 5000 then [APPROVAL_TIMEOUT]
           else if st = Working \<and> \<not> hasPendingToolUse c \<and> d > 60000 then [STALE_TIMEOUT]
           else []))
   \<and> (timeSinceActivity g now c = None \<longrightarrow> timeoutEvents g now (st, c) = [])
   \<and> (replay initialMachine es = (Working, c) \<and> hasPendingToolUse c
        \<and> timeSinceActivity g now c = Some 360000 \<longrightarrow>
        deriveStatusFromMachine g now es = (Idle, c) \<and> status (deriveStatus g now es) = idle)"
  by (simp add: timeoutEvents_def deriveStatusFromMachine_def deriveStatus_def Let_def exceeds_def
      IDLE_TIMEOUT_MS_def APPROVAL_TIMEOUT_MS_def STALE_TIMEOUT_MS_def)

theorem timeout_injection_witness:
  "replay initialMachine (take 2 scenarioF)
     = (Working, \<lparr>lastActivityAt = ''2025-01-01T00:00:01.000Z'', messageCount = 2,
                  hasPendingToolUse = True, pendingToolIds = [''toolu_1'']\<rparr>)
   \<and> timeSinceActivity sampleClock 1735689961000
        \<lparr>lastActivityAt = ''2025-01-01T00:00:01.000Z'', messageCount = 2,
         hasPendingToolUse = True, pendingToolIds = [''toolu_1'']\<rparr> = Some 360000
   \<and> status (deriveStatus sampleClock 1735689961000 (take 2 scenarioF)) = idle"
proof -
  let ?c = "\<lparr>lastActivityAt = ''2025-01-01T00:00:01.000Z'', messageCount = 2,
             hasPendingToolUse = True, pendingToolIds = [''toolu_1'']\<rparr>"
  have r: "replay initialMachine (take 2 scenarioF) = (Working, ?c)"
    by (simp add: scenarioF_def initialMachine_def initialContext_def isApprovalToolUse_def
        toolUseIdOf_def)
  have t: "timeSinceActivity sampleClock 1735689961000 ?c = Some 360000"
    by (simp add: timeSinceActivity_def sampleClock_def)
  from r t timeout_injection[of sampleClock 1735689961000 "(Working, ?c)" "take 2 scenarioF"
      ?c 360000 Working]
  show ?thesis by simp
qed

section \<open>The classifier, case by case\<close>

lemma toolResultIds_referenced: "toolResultIds bs = referencedToolUseIds bs"
  by (induction bs)
     (auto simp: toolResultIds_def referencedToolUseIds_def isToolResult_def
           split: content_block.splits)

lemma approvalIds_spec: "map toolUseIdOf (filter isApprovalToolUse bs) = approvalToolUseIds bs"
  by (induction bs)
     (auto simp: isApprovalToolUse_def approvalToolUseIds_def toolUseIdOf_def
           split: content_block.splits)

lemma approval_filter_empty: "(filter isApprovalToolUse bs = []) = (approvalToolUseIds bs = [])"
  by (induction bs)
     (auto simp: isApprovalToolUse_def approvalToolUseIds_def split: content_block.splits)

lemma referenced_nonempty: "(referencedToolUseIds bs \<noteq> []) = list_ex isToolResult bs"
  by (induction bs)
     (auto simp: isToolResult_def referencedToolUseIds_def split: content_block.splits)

lemma only_task_no_approval:
  "list_all (\<lambda>b. case b of ToolUseBlock i n \<Rightarrow> n = ''Task'' | _ \<Rightarrow> True) bs
     \<Longrightarrow> approvalToolUseIds bs = []"
  by (induction bs) (auto simp: approvalToolUseIds_def split: content_block.splits)

text \<open>
  C4: \<^verbatim>\<open>logEntryToEvent\<close> yields at most one event (its result is an option) and
  follows the cases: a user record whose block list holds a tool-result block yields
  \<open>TOOL_RESULT\<close> with the referenced ids, whatever text blocks come with it; an assistant
  record yields \<open>ASSISTANT_TOOL_USE\<close> with the ids of its tool-use blocks not named Task
  when there are any, and \<open>ASSISTANT_STREAMING\<close> otherwise, also when all its tool-use
  blocks are named Task; a system record yields \<open>TURN_END\<close> exactly for the subtypes
  \<^verbatim>\<open>turn_duration\<close> and \<^verbatim>\<open>stop_hook_summary\<close> and nothing otherwise; a record of
  another type yields nothing. The user prompts are the remaining cases.
\<close>

theorem classifier_cases:
  "(list_ex isToolResult bs \<longrightarrow>
      logEntryToEvent (UserEntry ts (BlockContent bs))
        = Some (TOOL_RESULT ts (referencedToolUseIds bs)))
   \<and> (approvalToolUseIds bs \<noteq> [] \<longrightarrow>
      logEntryToEvent (AssistantEntry ts bs) = Some (ASSISTANT_TOOL_USE ts (approvalToolUseIds bs)))
   \<and> (approvalToolUseIds bs = [] \<longrightarrow>
      logEntryToEvent (AssistantEntry ts bs) = Some (ASSISTANT_STREAMING ts))
   \<and> (list_all (\<lambda>b. case b of ToolUseBlock i n \<Rightarrow> n = ''Task'' | _ \<Rightarrow> True) bs \<longrightarrow>
      logEntryToEvent (AssistantEntry ts bs) = Some (ASSISTANT_STREAMING ts))
   \<and> ((logEntryToEvent (SystemEntry ts subtype) = Some (TURN_END ts))
        = (subtype = ''turn_duration'' \<or> subtype = ''stop_hook_summary''))
   \<and> (subtype \<noteq> ''turn_duration'' \<and> subtype \<noteq> ''stop_hook_summary'' \<longrightarrow>
        logEntryToEvent (SystemEntry ts subtype) = None)
   \<and> logEntryToEvent (OtherEntry ty) = None
   \<and> logEntryToEvent (UserEntry ts (StringContent s)) = Some (USER_PROMPT ts)
   \<and> (\<not> list_ex isToolResult bs \<and> list_ex isText bs \<longrightarrow>
        logEntryToEvent (UserEntry ts (BlockContent bs)) = Some (USER_PROMPT ts))
   \<and> (\<not> list_ex isToolResult bs \<and> \<not> list_ex isText bs \<longrightarrow>
        logEntryToEvent (UserEntry ts (BlockContent bs)) = None)"
  using referenced_nonempty[of bs] approval_filter_empty[of bs] only_task_no_approval[of bs]
  by (simp add: toolResultIds_referenced approvalIds_spec)

theorem classifier_cases_witness:
  "logEntryToEvent (UserEntry ''t'' (BlockContent
       [TextBlock ''see'', ToolResultBlock ''toolu_1'', ToolResultBlock ''toolu_2'']))
     = Some (TOOL_RESULT ''t'' [''toolu_1'', ''toolu_2''])
   \<and> logEntryToEvent (AssistantEntry ''t''
       [TextBlock ''see'', ToolResultBlock ''toolu_1'', ToolResultBlock ''toolu_2''])
     = Some (ASSISTANT_STREAMING ''t'')
   \<and> logEntryToEvent (SystemEntry ''t'' ''turn_duration'') = Some (TURN_END ''t'')"
  using classifier_cases[of "[TextBlock ''see'', ToolResultBlock ''toolu_1'',
      ToolResultBlock ''toolu_2'']" "''t''" "''turn_duration''" "''summary''" "''hello''"]
  by (simp add: referencedToolUseIds_def approvalToolUseIds_def isToolResult_def)

section \<open>The end of a turn\<close>

text \<open>
  C6: in \<open>Working\<close>, a \<open>TURN_END\<close> event (the classifier's event for a system record of
  subtype \<^verbatim>\<open>turn_duration\<close> or \<^verbatim>\<open>stop_hook_summary\<close>) moves the machine to
  \<open>Waiting_for_input\<close>, sets \<^verbatim>\<open>lastActivityAt\<close> to the event's timestamp and clears
  both \<^verbatim>\<open>hasPendingToolUse\<close> and \<^verbatim>\<open>pendingToolIds\<close>; the projected status is
  \<open>waiting\<close> with no pending tool use. Scenario F, evaluated within the idle threshold,
  gives exactly that.
\<close>

theorem turn_end_transition:
  "transition (Working, c) (TURN_END ts) =
     (Waiting_for_input,
      c\<lparr>lastActivityAt := ts, hasPendingToolUse := False, pendingToolIds := []\<rparr>)
   \<and> status (machineStatusToResult (fst (transition (Working, c) (TURN_END ts)))
                (snd (transition (Working, c) (TURN_END ts)))) = waiting
   \<and> result_hasPendingToolUse
        (machineStatusToResult (fst (transition (Working, c) (TURN_END ts)))
           (snd (transition (Working, c) (TURN_END ts)))) = False
   \<and> logEntryToEvent (SystemEntry ts ''turn_duration'') = Some (TURN_END ts)
   \<and> logEntryToEvent (SystemEntry ts ''stop_hook_summary'') = Some (TURN_END ts)
   \<and> (replay initialMachine es = (Working, c) \<and> \<not> exceeds (Some (now - t)) IDLE_TIMEOUT_MS
        \<and> g ts = Some t \<and> ts \<noteq> [] \<longrightarrow>
        deriveStatus g now (es @ [SystemEntry ts ''turn_duration''])
          = \<lparr>status = waiting, lastRole = assistant, result_hasPendingToolUse = False,
             result_lastActivityAt = ts, result_messageCount = messageCount c\<rparr>)"
proof -
  have app: "\<And>m xs ys. replay m (xs @ ys) = replay (replay m xs) ys"
  proof -
    fix m :: machine and xs ys
    show "replay m (xs @ ys) = replay (replay m xs) ys"
      by (induction xs arbitrary: m) simp_all
  qed
  show ?thesis
    by (simp add: app deriveStatus_def deriveStatusFromMachine_def timeoutEvents_def Let_def
        timeSinceActivity_def exceeds_def)
qed

theorem turn_end_transition_witness:
  "deriveStatus sampleClock 1735689604000 scenarioF
     = \<lparr>status = waiting, lastRole = assistant, result_hasPendingToolUse = False,
        result_lastActivityAt = ''2025-01-01T00:00:03.000Z'', result_messageCount = 3\<rparr>"
proof -
  let ?c = "\<lparr>lastActivityAt = ''2025-01-01T00:00:02.000Z'', messageCount = 3,
             hasPendingToolUse = False, pendingToolIds = []\<rparr>"
  have r: "replay initialMachine (take 3 scenarioF) = (Working, ?c)"
    by (simp add: scenarioF_def initialMachine_def initialContext_def isApprovalToolUse_def
        toolUseIdOf_def toolResultIds_def isToolResult_def remainingIds_def)
  have s: "scenarioF = take 3 scenarioF @ [SystemEntry ''2025-01-01T00:00:03.000Z'' ''turn_duration'']"
    by (simp add: scenarioF_def)
  have g: "sampleClock ''2025-01-01T00:00:03.000Z'' = Some 1735689603000"
    by (simp add: sampleClock_def)
  have e: "\<not> exceeds (Some (1735689604000 - 1735689603000)) IDLE_TIMEOUT_MS"
    by (simp add: exceeds_def IDLE_TIMEOUT_MS_def)
  from turn_end_transition[of ?c "''2025-01-01T00:00:03.000Z''" "take 3 scenarioF"
      1735689604000 1735689603000 sampleClock] r g e
  have "deriveStatus sampleClock 1735689604000
          (take 3 scenarioF @ [SystemEntry ''2025-01-01T00:00:03.000Z'' ''turn_duration''])
        = \<lparr>status = waiting, lastRole = assistant, result_hasPendingToolUse = False,
           result_lastActivityAt = ''2025-01-01T00:00:03.000Z'', result_messageCount = 3\<rparr>"
    by simp
  with s show ?thesis by simp
qed

section \<open>The empty log\<close>

text \<open>
  C9: \<^verbatim>\<open>deriveStatus\<close> of an empty list of entries, at any clock reading later than
  five minutes after the epoch, returns status \<open>idle\<close> with message count 0, no pending
  tool use and an empty \<^verbatim>\<open>lastActivityAt\<close>: the unset \<^verbatim>\<open>lastActivityAt\<close> reads as time
  0, so the elapsed time is the clock reading itself, and \<open>IDLE_TIMEOUT\<close> moves the initial
  \<open>Waiting_for_input\<close> to \<open>Idle\<close>.
\<close>

theorem deriveStatus_empty:
  "now > 300000 \<Longrightarrow>
     replay initialMachine [] = (Waiting_for_input, initialContext)
     \<and> timeSinceActivity g now initialContext = Some now
     \<and> timeoutEvents g now (Waiting_for_input, initialContext) = [IDLE_TIMEOUT]
     \<and> deriveStatusFromMachine g now [] = (Idle, initialContext)
     \<and> deriveStatus g now [] =
         \<lparr>status = idle, lastRole = assistant, result_hasPendingToolUse = False,
          result_lastActivityAt = [], result_messageCount = 0\<rparr>"
  by (simp add: timeoutEvents_def deriveStatusFromMachine_def deriveStatus_def Let_def exceeds_def
      IDLE_TIMEOUT_MS_def initialMachine_def initialContext_def timeSinceActivity_def)

theorem deriveStatus_empty_witness:
  "deriveStatus sampleClock 1735689600000 [] =
         \<lparr>status = idle, lastRole = assistant, result_hasPendingToolUse = False,
          result_lastActivityAt = [], result_messageCount = 0\<rparr>"
  using deriveStatus_empty[of 1735689600000 sampleClock] by simp

section \<open>The watcher: invariants of a run\<close>

lemma frame_overlay: "frame (overlay r) = frame r"
  by (simp add: frame_def overlay_def)

lemma timeout_frame:
  "lastActivityAt (snd (sendAll m (timeoutEvents g now m))) = lastActivityAt (snd m)
   \<and> messageCount (snd (sendAll m (timeoutEvents g now m))) = messageCount (snd m)"
  by (cases m; cases "fst m") (auto simp: timeoutEvents_def Let_def)

lemma frame_deriveStatus:
  "frame (deriveStatus g now es) =
     (lastActivityAt (snd (replay initialMachine es)),
      messageCount (snd (replay initialMachine es)), assistant)"
  using timeout_frame[of "replay initialMachine es" g now]
  by (simp add: frame_def deriveStatus_def deriveStatusFromMachine_def Let_def case_prod_unfold)

lemma frame_deriveStatus_time: "frame (deriveStatus g now es) = frame (deriveStatus g now' es)"
  by (simp add: frame_deriveStatus)

lemma watcherInvI:
  "(\<And>sid s. map_of (sessions w) sid = Some s \<Longrightarrow> sessionInv P w sid s) \<Longrightarrow> watcherInv P w"
  by (simp add: watcherInv_def)

lemma watcherInvD:
  "watcherInv P w \<Longrightarrow> map_of (sessions w) sid = Some s \<Longrightarrow> sessionInv P w sid s"
  by (simp add: watcherInv_def)

lemma initial_inv: "watcherInv P initialWatcher"
  by (simp add: watcherInv_def initialWatcher_def)

lemma overlay_status: "status (overlay r) = waiting \<and> result_hasPendingToolUse (overlay r)"
  by (simp add: overlay_def)

lemma inv_handlePendingPermission:
  assumes "watcherInv P w"
  shows "watcherInv P (fst (handlePendingPermission parsed w))"
proof (cases parsed)
  case None
  with assms show ?thesis by (simp add: handlePendingPermission_def)
next
  case (Some permission)
  show ?thesis
  proof (cases "session_id permission = []")
    case True
    with Some assms show ?thesis by (simp add: handlePendingPermission_def)
  next
    case False
    let ?sid = "session_id permission"
    show ?thesis
    proof (rule watcherInvI)
      fix sid s
      assume look: "map_of (sessions (fst (handlePendingPermission parsed w))) sid = Some s"
      show "sessionInv P (fst (handlePendingPermission parsed w)) sid s"
      proof (cases "map_of (sessions w) ?sid")
        case None
        with look Some False have "map_of (sessions w) sid = Some s" "sid \<noteq> ?sid"
          by (auto simp: handlePendingPermission_def Let_def)
        with watcherInvD[OF assms, of sid s] None Some False show ?thesis
          by (simp add: handlePendingPermission_def Let_def sessionInv_def)
      next
        case (Some s0)
        note old = watcherInvD[OF assms Some]
        show ?thesis
        proof (cases "sid = ?sid")
          case True
          with look Some \<open>parsed = Some permission\<close> False
          have "s = s0\<lparr>pendingPermission := Some permission,
                        session_status := overlay (session_status s0)\<rparr>"
            by (simp add: handlePendingPermission_def Let_def update_conv')
          with old True Some \<open>parsed = Some permission\<close> False show ?thesis
            using frame_overlay[of "session_status s0"]
            by (simp add: handlePendingPermission_def Let_def sessionInv_def overlay_status)
        next
          case neq: False
          with look Some \<open>parsed = Some permission\<close> False
          have "map_of (sessions w) sid = Some s"
            by (simp add: handlePendingPermission_def Let_def update_conv')
          with watcherInvD[OF assms, of sid s] neq Some \<open>parsed = Some permission\<close> False
          show ?thesis
            by (simp add: handlePendingPermission_def Let_def sessionInv_def)
        qed
      qed
    qed
  qed
qed

lemma inv_handlePendingPermissionRemoved:
  assumes "watcherInv P w"
  shows "watcherInv P (fst (handlePendingPermissionRemoved P now path w))"
proof (cases "signalSessionId path = []")
  case True
  with assms show ?thesis by (simp add: handlePendingPermissionRemoved_def)
next
  case False
  let ?sid = "signalSessionId path"
  let ?w' = "fst (handlePendingPermissionRemoved P now path w)"
  show ?thesis
  proof (rule watcherInvI)
    fix sid s
    assume look: "map_of (sessions ?w') sid = Some s"
    have pp: "pendingPermissions ?w' = (pendingPermissions w)(?sid := None)"
      using False
      by (simp add: handlePendingPermissionRemoved_def Let_def split: option.splits)
    show "sessionInv P ?w' sid s"
    proof (cases "sid = ?sid")
      case neq: False
      with look False have "map_of (sessions w) sid = Some s"
        by (simp add: handlePendingPermissionRemoved_def Let_def update_conv' split: option.splits)
      with watcherInvD[OF assms, of sid s] neq pp show ?thesis
        by (simp add: sessionInv_def)
    next
      case True
      show ?thesis
      proof (cases "map_of (sessions w) ?sid")
        case None
        with look True False show ?thesis
          by (simp add: handlePendingPermissionRemoved_def Let_def)
      next
        case (Some s0)
        note old = watcherInvD[OF assms Some]
        show ?thesis
        proof (cases "pendingPermission s0")
          case None
          with look True False Some have "s = s0"
            by (simp add: handlePendingPermissionRemoved_def Let_def)
          with old None True pp show ?thesis by (simp add: sessionInv_def)
        next
          case (Some p)
          with look True False \<open>map_of (sessions w) ?sid = Some s0\<close>
          have "s = s0\<lparr>pendingPermission := None,
                        session_status := deriveStatus (getTime P) now (entries s0)\<rparr>"
            by (simp add: handlePendingPermissionRemoved_def Let_def update_conv')
          with old True pp show ?thesis
            using frame_deriveStatus_time[of "getTime P" now "entries s0"]
            by (simp add: sessionInv_def)
        qed
      qed
    qed
  qed
qed

lemma map_of_sweep:
  "map_of (fst (sweep P now al)) k = map_option (sweepOne P now) (map_of al k)"
  by (induction al) (auto simp: sweepOne_def Let_def split: prod.splits)

lemma inv_checkStaleSessions:
  assumes "watcherInv P w"
  shows "watcherInv P (fst (checkStaleSessions P now w))"
proof (rule watcherInvI)
  fix sid s
  assume "map_of (sessions (fst (checkStaleSessions P now w))) sid = Some s"
  then obtain s0 where s0: "map_of (sessions w) sid = Some s0" and s: "s = sweepOne P now s0"
    by (auto simp: checkStaleSessions_def map_of_sweep case_prod_unfold Let_def)
  have pp: "pendingPermissions (fst (checkStaleSessions P now w)) = pendingPermissions w"
    by (simp add: checkStaleSessions_def case_prod_unfold Let_def)
  from watcherInvD[OF assms s0] show "sessionInv P (fst (checkStaleSessions P now w)) sid s"
    unfolding s using frame_deriveStatus_time[of "getTime P" now "entries s0"]
    by (auto simp: sessionInv_def sweepOne_def pp)
qed

lemma inv_handleDelete:
  assumes "watcherInv P w"
  shows "watcherInv P (fst (handleDelete P path w))"
proof (rule watcherInvI)
  fix sid s
  assume "map_of (sessions (fst (handleDelete P path w))) sid = Some s"
  then have "map_of (sessions w) sid = Some s"
    by (auto simp: handleDelete_def Let_def delete_conv' split: option.splits if_splits)
  moreover have "pendingPermissions (fst (handleDelete P path w)) = pendingPermissions w"
    by (simp add: handleDelete_def Let_def split: option.splits)
  ultimately show "sessionInv P (fst (handleDelete P path w)) sid s"
    using watcherInvD[OF assms, of sid s] by (simp add: sessionInv_def)
qed

lemma clear_fields:
  "pendingPermissions (clearIfToolResult sid newEntries w) =
     (if list_ex isToolResultEntry newEntries then (pendingPermissions w)(sid := None)
      else pendingPermissions w)"
  "sessions (clearIfToolResult sid newEntries w) = sessions w"
  by (auto simp: clearIfToolResult_def clearPendingPermission_def)

lemma handleFile_skips:
  "\<not> proceeds P path rd w \<Longrightarrow>
     handleFile P now path rd git w = (w, case rd of ReadFailed \<Rightarrow> [ErrorEvent] | _ \<Rightarrow> [])"
  by (cases rd; cases "map_of (sessions w) (extractSessionId P path)")
     (simp_all add: handleFile_def proceeds_def metadataFor_def)

lemma handleFile_proceeds:
  assumes "proceeds P path (ReadOk newEntries newPosition) w"
  shows "handleFile P now path (ReadOk newEntries newPosition) git w =
     (let sid = extractSessionId P path;
          existingSession = map_of (sessions w) sid;
          allEntries = (case existingSession of Some ex \<Rightarrow> entries ex @ newEntries | None \<Rightarrow> newEntries);
          md = the (metadataFor P existingSession allEntries);
          gitInfo = fst (gitInfoFor existingSession git);
          changed = snd (gitInfoFor existingSession git);
          w1 = clearIfToolResult sid newEntries w;
          pending = pendingPermissions w1 sid;
          s = buildSession P path sid md gitInfo changed (statusFor P now allEntries pending)
                allEntries newPosition pending
      in (w1\<lparr>sessions := AList.update sid s (sessions w)\<rparr>, sessionEvents existingSession s changed))"
proof (cases "map_of (sessions w) (extractSessionId P path)")
  case None
  with assms obtain md where "extractMetadata P newEntries = Some md"
    by (auto simp: proceeds_def)
  with None show ?thesis
    by (simp add: handleFile_def metadataFor_def clear_fields case_prod_unfold Let_def)
next
  case (Some ex)
  with assms have "newEntries \<noteq> []" by (simp add: proceeds_def)
  with Some show ?thesis
    by (simp add: handleFile_def metadataFor_def clear_fields case_prod_unfold Let_def)
qed

lemma buildSession_fields:
  "sessionId (buildSession P path sid md gitInfo changed st allEntries newPosition pending) = sid"
  "session_status (buildSession P path sid md gitInfo changed st allEntries newPosition pending) = st"
  "entries (buildSession P path sid md gitInfo changed st allEntries newPosition pending) = allEntries"
  "bytePosition (buildSession P path sid md gitInfo changed st allEntries newPosition pending) = newPosition"
  "pendingPermission (buildSession P path sid md gitInfo changed st allEntries newPosition pending) = pending"
  by (simp_all add: buildSession_def)

lemma statusFor_cases:
  "statusFor P now es None = deriveStatus (getTime P) now es"
  "statusFor P now es (Some p) = overlay (deriveStatus (getTime P) now es)"
  by (simp_all add: statusFor_def)

lemma frame_statusFor: "frame (statusFor P now es pending) = frame (deriveStatus (getTime P) t es)"
  using frame_deriveStatus_time[of "getTime P" now es t]
  by (cases pending) (simp_all add: statusFor_cases frame_overlay)

lemma inv_handleFile:
  assumes "watcherInv P w"
  shows "watcherInv P (fst (handleFile P now path rd git w))"
proof (cases "proceeds P path rd w")
  case False
  with assms show ?thesis by (simp add: handleFile_skips)
next
  case True
  then obtain newEntries newPosition where rd: "rd = ReadOk newEntries newPosition"
    by (cases rd) (simp_all add: proceeds_def)
  let ?sid = "extractSessionId P path"
  let ?w' = "fst (handleFile P now path rd git w)"
  define allEntries where "allEntries =
     (case map_of (sessions w) ?sid of Some ex \<Rightarrow> entries ex @ newEntries | None \<Rightarrow> newEntries)"
  define pending where "pending = pendingPermissions (clearIfToolResult ?sid newEntries w) ?sid"
  define s' where "s' = buildSession P path ?sid
      (the (metadataFor P (map_of (sessions w) ?sid) allEntries))
      (fst (gitInfoFor (map_of (sessions w) ?sid) git))
      (snd (gitInfoFor (map_of (sessions w) ?sid) git))
      (statusFor P now allEntries pending) allEntries newPosition pending"
  have w': "?w' = (clearIfToolResult ?sid newEntries w)\<lparr>sessions := AList.update ?sid s' (sessions w)\<rparr>"
    using True unfolding rd
    by (simp add: handleFile_proceeds Let_def s'_def allEntries_def pending_def)
  have pp_other: "\<And>k. k \<noteq> ?sid \<Longrightarrow> pendingPermissions ?w' k = pendingPermissions w k"
    by (simp add: w' clear_fields)
  have pp_sid: "pendingPermissions ?w' ?sid = pending"
    by (simp add: w' pending_def)
  show ?thesis
  proof (rule watcherInvI)
    fix sid s
    assume look: "map_of (sessions ?w') sid = Some s"
    show "sessionInv P ?w' sid s"
    proof (cases "sid = ?sid")
      case False
      with look have "map_of (sessions w) sid = Some s" by (simp add: w' update_conv')
      from watcherInvD[OF assms this] pp_other[OF False] show ?thesis
        by (simp add: sessionInv_def)
    next
      case True
      with look have s: "s = s'" by (simp add: w' update_conv')
      show ?thesis
        unfolding s True sessionInv_def pp_sid
        using frame_statusFor[of P now allEntries pending]
        by (cases pending)
           (simp_all add: s'_def buildSession_fields statusFor_cases overlay_def)
    qed
  qed
qed

lemma inv_handle: "watcherInv P w \<Longrightarrow> watcherInv P (fst (handle P n w))"
  by (cases n)
     (simp_all add: inv_handleFile inv_handlePendingPermission inv_handlePendingPermissionRemoved
        inv_checkStaleSessions inv_handleDelete)

lemma inv_run: "watcherInv P w \<Longrightarrow> watcherInv P (fst (run P w ns))"
proof (induction ns arbitrary: w)
  case Nil
  then show ?case by simp
next
  case (Cons n ns)
  from Cons.prems have "watcherInv P (fst (handle P n w))" by (rule inv_handle)
  from Cons.IH[OF this] show ?case by (simp add: case_prod_unfold Let_def)
qed

lemma sessionEvents_publishes:
  "publishes created (sessionEvents ex s changed) = (ex = None)"
  "publishes updated (sessionEvents ex s changed) =
     (case ex of None \<Rightarrow> False
      | Some e \<Rightarrow> statusChanged (Some (session_status e)) (session_status s)
                  \<or> result_messageCount (session_status s) > result_messageCount (session_status e)
                  \<or> changed)"
  "\<not> publishes deleted (sessionEvents ex s changed)"
  "length (sessionEvents ex s changed) \<le> Suc 0"
  by (cases ex; simp add: publishes_def sessionEvents_def Let_def)+

lemma gitInfoFor_changed:
  "snd (gitInfoFor ex git) = (case ex of None \<Rightarrow> False | Some e \<Rightarrow> branch git \<noteq> gitBranch e)"
  by (cases ex) (simp_all add: gitInfoFor_def)

text \<open>
  C8, as stated, fails: a created event is not published for every new session. A first
  pass over an empty log (no metadata yet) finds no session registered and publishes
  nothing.
\<close>

theorem notification_counterexample:
  "map_of (sessions initialWatcher) (extractSessionId sampleParser ''/p/s1.jsonl'') = None
   \<and> \<not> publishes created
        (snd (handleFile sampleParser 1735689600000 ''/p/s1.jsonl'' (ReadOk [] 0) sampleGit
               initialWatcher))"
  by (simp add: initialWatcher_def handleFile_def sampleParser_def metadataFor_def publishes_def)

text \<open>
  C8, amended: on a pass of \<^verbatim>\<open>handleFile\<close> whose read succeeded, an updated event is
  published if and only if the session exists, the read gave new entries, and the status
  changed, the message count increased or the git branch differs from the session's; a
  created event is published exactly when the session is new and its metadata can be
  extracted from the entries (a new session without metadata is not registered and nothing
  is published); when the read gives no new entries for an existing session, the pass
  changes nothing and publishes nothing. A pass publishes at most one event and never a
  deleted one.
\<close>

theorem notification_suppression:
  assumes "sid = extractSessionId P path"
    and "rd = ReadOk newEntries newPosition"
    and "pending = pendingPermissions (clearIfToolResult sid newEntries w) sid"
  shows "(map_of (sessions w) sid \<noteq> None \<and> newEntries = [] \<longrightarrow>
            handleFile P now path rd git w = (w, []))
       \<and> (map_of (sessions w) sid = None \<and> extractMetadata P newEntries = None \<longrightarrow>
            handleFile P now path rd git w = (w, []))
       \<and> publishes created (snd (handleFile P now path rd git w))
           = (map_of (sessions w) sid = None \<and> extractMetadata P newEntries \<noteq> None)
       \<and> publishes updated (snd (handleFile P now path rd git w))
           = (case map_of (sessions w) sid of
                None \<Rightarrow> False
              | Some ex \<Rightarrow>
                  newEntries \<noteq> []
                  \<and> (statusChanged (Some (session_status ex))
                         (statusFor P now (entries ex @ newEntries) pending)
                     \<or> result_messageCount (statusFor P now (entries ex @ newEntries) pending)
                         > result_messageCount (session_status ex)
                     \<or> branch git \<noteq> gitBranch ex))
       \<and> \<not> publishes deleted (snd (handleFile P now path rd git w))
       \<and> length (snd (handleFile P now path rd git w)) \<le> 1"
proof (cases "proceeds P path rd w")
  case False
  then show ?thesis
    using assms(1,2)
    by (cases "map_of (sessions w) sid")
       (auto simp: handleFile_skips proceeds_def publishes_def)
next
  case True
  show ?thesis
  proof (cases "map_of (sessions w) sid")
    case None
    with True assms(1,2) obtain m where md: "extractMetadata P newEntries = Some m"
      by (auto simp: proceeds_def)
    from True None md show ?thesis
      unfolding assms(2)
      by (simp add: handleFile_proceeds Let_def sessionEvents_publishes assms(1)[symmetric])
  next
    case (Some ex)
    with True assms(1,2) have ne: "newEntries \<noteq> []"
      by (simp add: proceeds_def)
    from True Some ne show ?thesis
      unfolding assms(2)
      by (simp add: handleFile_proceeds Let_def sessionEvents_publishes assms(1)[symmetric]
          assms(3)[symmetric] buildSession_fields gitInfoFor_changed)
  qed
qed







lemma sample_id: "extractSessionId sampleParser ''/p/s1.jsonl'' = ''s1''"
  by (simp add: sampleParser_def lastSegment_def)


lemma sample_derive2:
  "deriveStatus sampleClock 1735689601000 (take 2 scenarioF) =
     \<lparr>status = working, lastRole = assistant, result_hasPendingToolUse = True,
      result_lastActivityAt = ''2025-01-01T00:00:01.000Z'', result_messageCount = 2\<rparr>"
  "deriveStatus sampleClock 1735689602000 (take 2 scenarioF) =
     \<lparr>status = working, lastRole = assistant, result_hasPendingToolUse = True,
      result_lastActivityAt = ''2025-01-01T00:00:01.000Z'', result_messageCount = 2\<rparr>"
  by (simp_all add: scenarioF_def sampleClock_def deriveStatus_def deriveStatusFromMachine_def
      initialMachine_def initialContext_def timeoutEvents_def timeSinceActivity_def exceeds_def
      isApprovalToolUse_def toolUseIdOf_def
      IDLE_TIMEOUT_MS_def APPROVAL_TIMEOUT_MS_def STALE_TIMEOUT_MS_def)

lemma sample_first_pass:
  "handleFile sampleParser 1735689601000 ''/p/s1.jsonl'' (ReadOk (take 2 scenarioF) 300)
     sampleGit initialWatcher
   = (\<lparr>sessions = [(''s1'', sampleSession
                        \<lparr>session_status := deriveStatus sampleClock 1735689601000 (take 2 scenarioF),
                         pendingPermission := None\<rparr>)],
       pendingPermissions = Map.empty\<rparr>,
      [SessionEvent \<lparr>event_type = created,
         session = sampleSession
                        \<lparr>session_status := deriveStatus sampleClock 1735689601000 (take 2 scenarioF),
                         pendingPermission := None\<rparr>,
         previousStatus = None\<rparr>])"
proof -
  have p: "proceeds sampleParser ''/p/s1.jsonl'' (ReadOk (take 2 scenarioF) 300) initialWatcher"
    by (simp add: proceeds_def sample_id initialWatcher_def) (simp add: sampleParser_def scenarioF_def)
  have md: "metadataFor sampleParser None (take 2 scenarioF) =
      Some \<lparr>meta_sessionId = ''s1'', meta_cwd = ''/p'', meta_gitBranch = None,
            meta_originalPrompt = ''fix the bug'', meta_startedAt = ''2025-01-01T00:00:00.000Z''\<rparr>"
    by (simp add: metadataFor_def sampleParser_def scenarioF_def)
  have enc: "extractEncodedDir sampleParser ''/p/s1.jsonl'' = ''-p''" "getTime sampleParser = sampleClock"
    by (simp_all add: sampleParser_def)
  show ?thesis
    unfolding handleFile_proceeds[OF p] Let_def sample_id
    by (simp add: initialWatcher_def md clearIfToolResult_def gitInfoFor_def statusFor_def
        buildSession_def sessionEvents_def sampleSession_def sampleGit_def orElse_def enc)
qed

lemma sample_state: "fst (run sampleParser initialWatcher sampleRun) = sampleWatcher"
  by (simp add: sampleRun_def sample_first_pass handlePendingPermission_def samplePermission_def
      sampleWatcher_def sampleSession_def overlay_def sample_derive2 Let_def)

section \<open>The pending-permission signal: when it is present\<close>













theorem notification_suppression_witness:
  "publishes updated
      (snd (handleFile sampleParser 1735689602000 ''/p/s1.jsonl'' (ReadOk [scenarioF ! 2] 400)
             sampleGit sampleWatcher))
   \<and> \<not> publishes created
      (snd (handleFile sampleParser 1735689602000 ''/p/s1.jsonl'' (ReadOk [scenarioF ! 2] 400)
             sampleGit sampleWatcher))
   \<and> handleFile sampleParser 1735689602000 ''/p/s1.jsonl'' (ReadOk [] 300) sampleGit sampleWatcher
       = (sampleWatcher, [])
   \<and> publishes created
      (snd (handleFile sampleParser 1735689601000 ''/p/s1.jsonl'' (ReadOk (take 2 scenarioF) 300)
             sampleGit initialWatcher))"
proof -
  have l: "map_of (sessions sampleWatcher) ''s1'' = Some sampleSession"
    by (simp add: sampleWatcher_def)
  have tr: "list_ex isToolResultEntry [scenarioF ! 2]"
    by (simp add: scenarioF_def isToolResultEntry_def isToolResult_def)
  have pend: "pendingPermissions (clearIfToolResult ''s1'' [scenarioF ! 2] sampleWatcher) ''s1'' = None"
    using tr by (simp add: clear_fields)
  have d3: "deriveStatus sampleClock 1735689602000 (take 2 scenarioF @ [scenarioF ! 2]) =
     \<lparr>status = working, lastRole = assistant, result_hasPendingToolUse = False,
      result_lastActivityAt = ''2025-01-01T00:00:02.000Z'', result_messageCount = 3\<rparr>"
    by (simp add: scenarioF_def sampleClock_def deriveStatus_def deriveStatusFromMachine_def
      initialMachine_def initialContext_def timeoutEvents_def timeSinceActivity_def exceeds_def
      isApprovalToolUse_def toolUseIdOf_def toolResultIds_def isToolResult_def remainingIds_def
      IDLE_TIMEOUT_MS_def APPROVAL_TIMEOUT_MS_def STALE_TIMEOUT_MS_def)
  have e: "entries sampleSession = take 2 scenarioF" "getTime sampleParser = sampleClock"
     "session_status sampleSession = \<lparr>status = waiting, lastRole = assistant,
         result_hasPendingToolUse = True,
         result_lastActivityAt = ''2025-01-01T00:00:01.000Z'', result_messageCount = 2\<rparr>"
    by (simp_all add: sampleSession_def sampleParser_def)
  have md: "extractMetadata sampleParser (take 2 scenarioF) \<noteq> None"
    by (simp add: sampleParser_def scenarioF_def)
  note A = notification_suppression[OF sample_id[symmetric] refl refl,
      where newEntries = "[scenarioF ! 2]" and w = sampleWatcher and now = 1735689602000
        and newPosition = 400 and git = sampleGit]
  note B = notification_suppression[OF sample_id[symmetric] refl refl,
      where newEntries = "[]" and w = sampleWatcher and now = 1735689602000
        and newPosition = 300 and git = sampleGit]
  note C = notification_suppression[OF sample_id[symmetric] refl refl,
      where newEntries = "take 2 scenarioF" and w = initialWatcher and now = 1735689601000
        and newPosition = 300 and git = sampleGit]
  from A have "publishes updated
      (snd (handleFile sampleParser 1735689602000 ''/p/s1.jsonl'' (ReadOk [scenarioF ! 2] 400)
             sampleGit sampleWatcher))
   \<and> \<not> publishes created
      (snd (handleFile sampleParser 1735689602000 ''/p/s1.jsonl'' (ReadOk [scenarioF ! 2] 400)
             sampleGit sampleWatcher))"
    by (simp add: l pend statusFor_cases e d3)
  moreover from B have "handleFile sampleParser 1735689602000 ''/p/s1.jsonl'' (ReadOk [] 300)
       sampleGit sampleWatcher = (sampleWatcher, [])"
    by (simp add: l)
  moreover from C md have "publishes created
      (snd (handleFile sampleParser 1735689601000 ''/p/s1.jsonl'' (ReadOk (take 2 scenarioF) 300)
             sampleGit initialWatcher))"
    by (simp add: initialWatcher_def)
  ultimately show ?thesis by simp
qed

text \<open>
  C10: the permission overlay sets the status to waiting and the pending flag to true and
  changes nothing else: applied in \<^verbatim>\<open>handleFile\<close> it is the overlay of the derived
  status, applied in \<^verbatim>\<open>handlePendingPermission\<close> it is the overlay of the session's
  status, and in every state the watcher reaches the \<^verbatim>\<open>lastActivityAt\<close>,
  \<^verbatim>\<open>messageCount\<close> and \<^verbatim>\<open>lastRole\<close> of a session's status are those the machine
  derives from its entries.
\<close>

theorem overlay_frame:
  assumes "w = fst (run P initialWatcher ns)"
  shows "result_lastActivityAt (overlay r) = result_lastActivityAt r
       \<and> result_messageCount (overlay r) = result_messageCount r
       \<and> lastRole (overlay r) = lastRole r
       \<and> status (overlay r) = waiting \<and> result_hasPendingToolUse (overlay r)
       \<and> (proceeds P path (ReadOk newEntries newPosition) w
            \<and> pendingPermissions (fst (handleFile P t path (ReadOk newEntries newPosition) git w))
                 (extractSessionId P path) \<noteq> None \<longrightarrow>
            map_option session_status
              (map_of (sessions (fst (handleFile P t path (ReadOk newEntries newPosition) git w)))
                 (extractSessionId P path))
            = Some (overlay (deriveStatus (getTime P) t
                 (case map_of (sessions w) (extractSessionId P path) of
                    Some ex \<Rightarrow> entries ex @ newEntries | None \<Rightarrow> newEntries))))
       \<and> (map_of (sessions w) (session_id p) = Some s \<and> session_id p \<noteq> [] \<longrightarrow>
            map_option session_status
              (map_of (sessions (fst (handlePendingPermission (Some p) w))) (session_id p))
            = Some (overlay (session_status s)))
       \<and> (map_of (sessions w) sid = Some s' \<longrightarrow>
            frame (session_status s') = frame (deriveStatus (getTime P) t' (entries s')))"
proof -
  have inv: "watcherInv P w"
    unfolding assms by (rule inv_run[OF initial_inv])
  have a: "proceeds P path (ReadOk newEntries newPosition) w
            \<and> pendingPermissions (fst (handleFile P t path (ReadOk newEntries newPosition) git w))
                 (extractSessionId P path) \<noteq> None \<longrightarrow>
            map_option session_status
              (map_of (sessions (fst (handleFile P t path (ReadOk newEntries newPosition) git w)))
                 (extractSessionId P path))
            = Some (overlay (deriveStatus (getTime P) t
                 (case map_of (sessions w) (extractSessionId P path) of
                    Some ex \<Rightarrow> entries ex @ newEntries | None \<Rightarrow> newEntries)))"
    by (auto simp: handleFile_proceeds Let_def update_conv' buildSession_fields statusFor_cases)
  have b: "map_of (sessions w) (session_id p) = Some s \<and> session_id p \<noteq> [] \<longrightarrow>
            map_option session_status
              (map_of (sessions (fst (handlePendingPermission (Some p) w))) (session_id p))
            = Some (overlay (session_status s))"
    by (simp add: handlePendingPermission_def Let_def update_conv')
  have c: "map_of (sessions w) sid = Some s' \<longrightarrow>
            frame (session_status s') = frame (deriveStatus (getTime P) t' (entries s'))"
    using watcherInvD[OF inv, of sid s'] by (simp add: sessionInv_def)
  from a b c show ?thesis by (simp add: overlay_def)
qed

theorem overlay_frame_witness:
  "map_of (sessions sampleWatcher) ''s1'' = Some sampleSession
   \<and> frame (session_status sampleSession)
       = (''2025-01-01T00:00:01.000Z'', 2, assistant)
   \<and> frame (deriveStatus sampleClock 1735689602000 (take 2 scenarioF))
       = (''2025-01-01T00:00:01.000Z'', 2, assistant)"
proof -
  have l: "map_of (sessions sampleWatcher) ''s1'' = Some sampleSession"
    by (simp add: sampleWatcher_def)
  have e: "entries sampleSession = take 2 scenarioF" "getTime sampleParser = sampleClock"
    by (simp_all add: sampleSession_def sampleParser_def)
  have f: "frame (session_status sampleSession) = (''2025-01-01T00:00:01.000Z'', 2, assistant)"
    by (simp add: frame_def sampleSession_def)
  from overlay_frame[OF sample_state[symmetric], where sid = "''s1''" and s' = sampleSession
      and t' = 1735689602000] l e f
  show ?thesis by simp
qed

section \<open>The log reader: offsets and split invariance\<close>

lemma scan_no_newline: "newline \<notin> set bytes \<Longrightarrow> scanLines parse bytes = ([], 0)"
  by (simp add: scanLines.simps)

lemma scan_line:
  "newline \<notin> set line \<Longrightarrow>
     scanLines parse (line @ newline # rest) =
       ((case parse line of None \<Rightarrow> fst (scanLines parse rest) | Some r \<Rightarrow> r # fst (scanLines parse rest)),
        length line + 1 + snd (scanLines parse rest))"
proof -
  assume a: "newline \<notin> set line"
  have "takeWhile (\<lambda>c. c \<noteq> newline) (line @ newline # rest)
          = line @ takeWhile (\<lambda>c. c \<noteq> newline) (newline # rest)"
    by (rule takeWhile_append2) (use a in auto)
  then have tw: "takeWhile (\<lambda>c. c \<noteq> newline) (line @ newline # rest) = line"
    by simp
  have "dropWhile (\<lambda>c. c \<noteq> newline) (line @ newline # rest)
          = dropWhile (\<lambda>c. c \<noteq> newline) (newline # rest)"
    by (rule dropWhile_append2) (use a in auto)
  then have dw: "dropWhile (\<lambda>c. c \<noteq> newline) (line @ newline # rest) = newline # rest"
    by simp
  show ?thesis
    by (subst scanLines.simps) (simp add: tw dw case_prod_unfold Let_def)
qed

lemma split_first_newline:
  "newline \<in> set bytes \<Longrightarrow> \<exists>line rest. bytes = line @ newline # rest \<and> newline \<notin> set line"
  by (metis split_list_first)

lemma scan_consumed_le: "snd (scanLines parse bytes) \<le> length bytes"
proof (induction bytes rule: length_induct)
  case (1 bytes)
  show ?case
  proof (cases "newline \<in> set bytes")
    case False
    then show ?thesis by (simp add: scan_no_newline)
  next
    case True
    then obtain line rest where b: "bytes = line @ newline # rest" "newline \<notin> set line"
      using split_first_newline by blast
    with 1 have "snd (scanLines parse rest) \<le> length rest" by simp
    with b show ?thesis by (simp add: scan_line)
  qed
qed

lemma scan_append:
  "scanLines parse (xs @ ys) =
     (fst (scanLines parse xs) @ fst (scanLines parse (drop (snd (scanLines parse xs)) xs @ ys)),
      snd (scanLines parse xs) + snd (scanLines parse (drop (snd (scanLines parse xs)) xs @ ys)))"
proof (induction xs rule: length_induct)
  case (1 xs)
  show ?case
  proof (cases "newline \<in> set xs")
    case False
    then show ?thesis by (simp add: scan_no_newline)
  next
    case True
    then obtain line rest where b: "xs = line @ newline # rest" and nl: "newline \<notin> set line"
      using split_first_newline by blast
    define n1 where "n1 = snd (scanLines parse rest)"
    have "length rest < length xs" by (simp add: b)
    with 1 have ih: "scanLines parse (rest @ ys) =
       (fst (scanLines parse rest) @ fst (scanLines parse (drop n1 rest @ ys)),
        n1 + snd (scanLines parse (drop n1 rest @ ys)))"
      unfolding n1_def by blast
    have sx: "snd (scanLines parse xs) = length line + 1 + n1"
      unfolding b n1_def by (simp add: scan_line[OF nl])
    have dr: "drop (length line + 1 + n1) xs = drop n1 rest"
      unfolding b by simp
    have fx: "fst (scanLines parse xs) =
        (case parse line of None \<Rightarrow> fst (scanLines parse rest)
         | Some r \<Rightarrow> r # fst (scanLines parse rest))"
      unfolding b by (simp add: scan_line[OF nl])
    have whole: "scanLines parse (xs @ ys) =
        ((case parse line of None \<Rightarrow> fst (scanLines parse (rest @ ys))
          | Some r \<Rightarrow> r # fst (scanLines parse (rest @ ys))),
         length line + 1 + snd (scanLines parse (rest @ ys)))"
      unfolding b using scan_line[OF nl, of parse "rest @ ys"] by simp
    show ?thesis
      unfolding whole sx dr fx ih by (cases "parse line") simp_all
  qed
qed


lemma scan_take:
  "scanLines parse (take (snd (scanLines parse xs)) xs) = scanLines parse xs"
proof (induction xs rule: length_induct)
  case (1 xs)
  show ?case
  proof (cases "newline \<in> set xs")
    case False
    then show ?thesis by (simp add: scan_no_newline)
  next
    case True
    then obtain line rest where b: "xs = line @ newline # rest" and nl: "newline \<notin> set line"
      using split_first_newline by blast
    define n1 where "n1 = snd (scanLines parse rest)"
    have "length rest < length xs" by (simp add: b)
    with 1 have ih: "scanLines parse (take n1 rest) = scanLines parse rest"
      unfolding n1_def by blast
    have sx: "snd (scanLines parse xs) = length line + 1 + n1"
      unfolding b n1_def by (simp add: scan_line[OF nl])
    have tk: "take (length line + 1 + n1) xs = line @ newline # take n1 rest"
      unfolding b by simp
    show ?thesis
      unfolding sx tk unfolding b by (cases "parse line") (simp_all add: scan_line[OF nl] ih)
  qed
qed

lemma tail_fst: "fst (tailJSONL parse c off) = fst (scanLines parse (drop off c))"
  and tail_snd: "snd (tailJSONL parse c off) = off + snd (scanLines parse (drop off c))"
  by (simp_all add: tailJSONL_def case_prod_unfold Let_def)

lemma tail_offset_ge: "off \<le> snd (tailJSONL parse c off)"
  by (simp add: tail_snd)

lemma tail_offset_le: "off \<le> length c \<Longrightarrow> snd (tailJSONL parse c off) \<le> length c"
  using scan_consumed_le[of parse "drop off c"] by (simp add: tail_snd)

lemma tail_grow:
  assumes "prefix c c'" and "off \<le> length c"
  shows "fst (tailJSONL parse c' off)
           = fst (tailJSONL parse c off) @ fst (tailJSONL parse c' (snd (tailJSONL parse c off)))"
    and "snd (tailJSONL parse c' off) = snd (tailJSONL parse c' (snd (tailJSONL parse c off)))"
proof -
  from assms(1) obtain d where c': "c' = c @ d" by (auto simp: prefix_def)
  define n1 where "n1 = snd (scanLines parse (drop off c))"
  have le: "n1 \<le> length (drop off c)" unfolding n1_def by (rule scan_consumed_le)
  have d1: "drop off c' = drop off c @ d" using assms(2) by (simp add: c')
  have d2: "drop (off + n1) c' = drop n1 (drop off c) @ d"
    using le assms(2) by (simp add: c' add.commute)
  have sa: "scanLines parse (drop off c @ d) =
     (fst (scanLines parse (drop off c)) @ fst (scanLines parse (drop n1 (drop off c) @ d)),
      n1 + snd (scanLines parse (drop n1 (drop off c) @ d)))"
    unfolding n1_def by (rule scan_append)
  show "fst (tailJSONL parse c' off)
           = fst (tailJSONL parse c off) @ fst (tailJSONL parse c' (snd (tailJSONL parse c off)))"
    unfolding tail_fst tail_snd n1_def[symmetric] d1 d2 sa by simp
  show "snd (tailJSONL parse c' off) = snd (tailJSONL parse c' (snd (tailJSONL parse c off)))"
    unfolding tail_fst tail_snd n1_def[symmetric] d1 d2 sa by simp
qed

lemma tail_parsedFrom:
  "fst (tailJSONL parse c off) = parsedFrom parse c (off, snd (tailJSONL parse c off))"
  using scan_take[of parse "drop off c"] by (simp add: parsedFrom_def tail_fst tail_snd)

lemma parsedFrom_prefix:
  assumes "prefix c c'" and "b \<le> length c"
  shows "parsedFrom parse c' (a, b) = parsedFrom parse c (a, b)"
proof -
  from assms(1) obtain d where c': "c' = c @ d" by (auto simp: prefix_def)
  have "take (b - a) (drop a (c @ d)) = take (b - a) (drop a c)"
  proof (cases "a \<le> length c")
    case True
    with assms(2) have "b - a \<le> length (drop a c)" by simp
    then have "take (b - a) (drop a c @ d) = take (b - a) (drop a c)" by simp
    with True show ?thesis by simp
  next
    case False
    with assms(2) have "b - a = 0" by simp
    then show ?thesis by simp
  qed
  then show ?thesis by (simp only: parsedFrom_def c' fst_conv snd_conv)
qed

lemma growing_prefix_last: "growing (c # cs) \<Longrightarrow> prefix c (last (c # cs))"
proof (induction cs arbitrary: c)
  case Nil
  then show ?case by simp
next
  case (Cons c' cs)
  then have "prefix c c'" and "prefix c' (last (c' # cs))" by simp_all
  then show ?case by (auto intro: prefix_order.trans)
qed

lemma growing_tail: "growing (c # cs) \<Longrightarrow> growing cs"
  by (cases cs) simp_all

lemma readAll_split:
  assumes "growing (c # cs)" and "off \<le> length c"
  shows "concat (map fst (readAll parse off (c # cs))) = fst (tailJSONL parse (last (c # cs)) off)
       \<and> snd (last (readAll parse off (c # cs))) = snd (tailJSONL parse (last (c # cs)) off)
       \<and> sorted (off # map snd (readAll parse off (c # cs)))
       \<and> map fst (readAll parse off (c # cs))
           = map (parsedFrom parse (last (c # cs)))
               (zip (off # map snd (readAll parse off (c # cs)))
                    (map snd (readAll parse off (c # cs))))"
  using assms
proof (induction cs arbitrary: c off)
  case Nil
  then show ?case
    by (simp add: Let_def tail_offset_ge tail_parsedFrom[symmetric])
next
  case (Cons c' cs)
  let ?r = "tailJSONL parse c off"
  let ?L = "last (c' # cs)"
  from Cons.prems have pc: "prefix c c'" and g: "growing (c' # cs)" by simp_all
  from Cons.prems have le: "snd ?r \<le> length c" by (simp add: tail_offset_le)
  with pc have le': "snd ?r \<le> length c'" by (meson order_trans prefix_length_le)
  note ih = Cons.IH[OF g le']
  from growing_prefix_last[OF g] pc have pL: "prefix c ?L" by (rule prefix_order.trans[rotated])
  define rs where "rs = readAll parse (snd ?r) (c' # cs)"
  define L where "L = last (c' # cs)"
  have lastL: "last (c # c' # cs) = L" by (simp add: L_def)
  have ra: "readAll parse off (c # c' # cs) = ?r # rs"
    by (simp add: Let_def rs_def)
  have ne: "rs \<noteq> []" by (simp add: Let_def rs_def)
  have first: "fst ?r = parsedFrom parse L (off, snd ?r)"
    using tail_parsedFrom[of parse c off] parsedFrom_prefix[OF pL le, of parse off]
    by (simp add: L_def)
  from ih have ih1: "concat (map fst rs) = fst (tailJSONL parse L (snd ?r))"
    and ih2: "snd (last rs) = snd (tailJSONL parse L (snd ?r))"
    and ih3: "sorted (snd ?r # map snd rs)"
    and ih4: "map fst rs = map (parsedFrom parse L) (zip (snd ?r # map snd rs) (map snd rs))"
    unfolding rs_def L_def by blast+
  have g1: "fst (tailJSONL parse L off) = fst ?r @ fst (tailJSONL parse L (snd ?r))"
    and g2: "snd (tailJSONL parse L off) = snd (tailJSONL parse L (snd ?r))"
    using tail_grow[OF pL Cons.prems(2), of parse] unfolding L_def by blast+
  have c1: "concat (map fst (?r # rs)) = fst (tailJSONL parse L off)"
    by (simp add: ih1 g1)
  have c2: "snd (last (?r # rs)) = snd (tailJSONL parse L off)"
    using ne by (simp add: ih2 g2)
  have c3: "sorted (off # map snd (?r # rs))"
    using ih3 tail_offset_ge[of off parse c] by auto
  have c4: "map fst (?r # rs)
              = map (parsedFrom parse L) (zip (off # map snd (?r # rs)) (map snd (?r # rs)))"
    using ih4 first by simp
  show ?case
    unfolding ra lastL using c1 c2 c3 c4 by blast
qed


text \<open>
  C7: for every sequence of incremental reads of a growing log file, each resuming from
  the offset the previous read returned, the offsets returned never decrease, the
  concatenation of the batches equals the records of one pass over the final content from
  offset 0 (and ends at the same offset), and no record is parsed twice: each batch is
  what the bytes between its two offsets hold, and those spans do not overlap.
\<close>

theorem reader_split_invariance:
  assumes "growing contents" and "contents \<noteq> []"
  shows "sorted (0 # map snd (readAll parse 0 contents))
       \<and> concat (map fst (readAll parse 0 contents)) = fst (tailJSONL parse (last contents) 0)
       \<and> snd (last (readAll parse 0 contents)) = snd (tailJSONL parse (last contents) 0)
       \<and> map fst (readAll parse 0 contents)
           = map (parsedFrom parse (last contents))
               (zip (0 # map snd (readAll parse 0 contents))
                    (map snd (readAll parse 0 contents)))"
proof -
  from assms(2) obtain c cs where c: "contents = c # cs" by (cases contents) auto
  have g: "growing (c # cs)" using assms(1) by (simp only: c)
  from readAll_split[OF g le0, of parse] show ?thesis unfolding c by blast
qed

lemma sample_reads:
  "readAll sampleParse 0 sampleContents = [([''a''], 2), ([''b''], 12), ([''c''], 14)]"
  "tailJSONL sampleParse (last sampleContents) 0 = ([''a'', ''b'', ''c''], 14)"
  by (simp_all add: sampleContents_def tailJSONL_def sampleParse_def newline_def scanLines.simps)

theorem reader_split_invariance_witness:
  "growing sampleContents
   \<and> map snd (readAll sampleParse 0 sampleContents) = [2, 12, 14]
   \<and> concat (map fst (readAll sampleParse 0 sampleContents)) = [''a'', ''b'', ''c'']
   \<and> fst (tailJSONL sampleParse (last sampleContents) 0) = [''a'', ''b'', ''c'']"
proof -
  have g: "growing sampleContents" by (simp add: sampleContents_def)
  have n: "sampleContents \<noteq> []" by (simp add: sampleContents_def)
  from reader_split_invariance[OF g n, of sampleParse] g show ?thesis
    by (simp add: sample_reads)
qed

end
